theory Spec2Isabelle
  imports Main "HOL-Library.Word"
begin

unbundle bit_operations_syntax

section \<open>Bytes, errors and results\<close>

text \<open>
  The development embeds the AEAD variant of the connection (the file that declares
  \<^verbatim>\<open>type half struct { aead cipher.AEAD; seq []byte }\<close>). Go's \<^verbatim>\<open>byte\<close> is an 8-bit
  word, a slice is a list, \<^verbatim>\<open>uint32\<close> is a 32-bit word.
\<close>

type_synonym byte = "8 word"
type_synonym bytes = "byte list"
type_synonym uint32 = "32 word"

text \<open>
  The error values the connection can hand to its caller. \<open>ErrBadHeader e\<close> is
  \<^verbatim>\<open>errors.Cause(ErrBadHeader, e)\<close>; \<open>ErrOpen\<close> is the error of \<^verbatim>\<open>cipher.AEAD.Open\<close>
  ("message authentication failed"); \<open>ErrKeySize\<close> is \<^verbatim>\<open>aes.KeySizeError\<close>; \<open>ErrIO n\<close>
  stands for any other error of the carrier.
\<close>

datatype error =
    EOF
  | ErrUnexpectedEOF
  | ErrShortWrite
  | ErrShortBuffer
  | ErrBadRekey
  | ErrProtocolError
  | ErrBadHeader error
  | ErrOpen
  | ErrKeySize
  | ErrIO nat

text \<open>
  A call returns a value, returns an error, or panics (a nil dereference, an index out
  of range, the explicit \<^verbatim>\<open>panic\<close> of \<^verbatim>\<open>makeKeys\<close>).
\<close>

datatype 'a res = Ok 'a | Err error | Panic

section \<open>The nonce counter of a half\<close>

text \<open>
  \<^verbatim>\<open>
  func (h *half) incSeq() {
      for i := 0; i < len(h.seq); i++ {
          c := h.seq[i]
          h.seq[i] = c + 1
          if c < 255 { return }
      }
  }
  \<close>
  The field \<open>aead\<close> holds the key of the AES-GCM instance (\<open>None\<close> is the nil interface).
\<close>

record half =
  aead :: "bytes option"
  seq :: bytes

function incSeq_loop :: "nat \<Rightarrow> bytes \<Rightarrow> bytes" where
  "incSeq_loop i s =
     (if i < length s then
        (let c = s ! i; s' = s[i := c + 1]
         in if c < 255 then s' else incSeq_loop (i + 1) s')
      else s)"
  by pat_completeness auto
termination
  by (relation "measure (\<lambda>(i, s). length s - i)") auto

declare incSeq_loop.simps [simp del]

definition incSeq :: "half \<Rightarrow> half" where
  "incSeq h = h\<lparr>seq := incSeq_loop 0 (seq h)\<rparr>"

text \<open>The value of a byte string read as a little-endian integer (byte 0 least significant).\<close>

fun le_val :: "bytes \<Rightarrow> nat" where
  "le_val [] = 0"
| "le_val (b # bs) = unat b + 256 * le_val bs"

text \<open>The same increment by recursion on the list, used to reason about the index loop.\<close>

fun inc_le :: "bytes \<Rightarrow> bytes" where
  "inc_le [] = []"
| "inc_le (c # cs) = (if c < 255 then (c + 1) # cs else (c + 1) # inc_le cs)"

lemma incSeq_loop_split: "incSeq_loop i s = take i s @ inc_le (drop i s)"
proof (induction i s rule: incSeq_loop.induct)
  case (1 i s)
  show ?case
  proof (cases "i < length s")
    case False
    then show ?thesis by (subst incSeq_loop.simps) simp
  next
    case True
    then have d: "drop i s = s ! i # drop (Suc i) s"
      by (simp add: Cons_nth_drop_Suc)
    show ?thesis
    proof (cases "s ! i < 255")
      case c: True
      have "incSeq_loop i s = s[i := s ! i + 1]"
        using True c by (subst incSeq_loop.simps) (simp add: Let_def)
      also have "\<dots> = take i s @ (s ! i + 1) # drop (Suc i) s"
        using True by (simp add: upd_conv_take_nth_drop)
      finally show ?thesis using d c by simp
    next
      case c: False
      have "incSeq_loop i s = incSeq_loop (i + 1) (s[i := s ! i + 1])"
        using True c by (subst incSeq_loop.simps) (simp add: Let_def)
      also have "\<dots> = take (i + 1) (s[i := s ! i + 1])
                       @ inc_le (drop (i + 1) (s[i := s ! i + 1]))"
        using 1 True c by simp
      also have "\<dots> = take i s @ (s ! i + 1) # inc_le (drop (Suc i) s)"
        using True by (simp add: take_Suc_conv_app_nth)
      finally show ?thesis using d c by simp
    qed
  qed
qed

lemma incSeq_loop_0: "incSeq_loop 0 s = inc_le s"
  using incSeq_loop_split [of 0 s] by simp

lemma length_inc_le [simp]: "length (inc_le s) = length s"
  by (induction s) auto

lemma byte_bound: "unat (b :: byte) < 256"
  using unsigned_less [of b, where ?'a = nat] by simp

lemma le_val_bound: "le_val s < 2 ^ (8 * length s)"
proof (induction s)
  case Nil
  show ?case by simp
next
  case (Cons b bs)
  have "le_val bs + 1 \<le> 2 ^ (8 * length bs)"
    using Cons by simp
  then have "256 * (le_val bs + 1) \<le> 256 * 2 ^ (8 * length bs)"
    by (rule mult_le_mono2)
  then have "unat b + 256 * le_val bs < 256 * 2 ^ (8 * length bs)"
    using byte_bound [of b] by simp
  moreover have "(2::nat) ^ (8 * length (b # bs)) = 256 * 2 ^ (8 * length bs)"
    by (simp add: power_add)
  ultimately show ?case by simp
qed

lemma unat_succ_byte: "unat ((c::byte) + 1) = (if c < 255 then unat c + 1 else 0)"
proof (cases "c < 255")
  case True
  then have "unat c < 255" by (simp add: word_less_nat_alt)
  then show ?thesis using True by (simp add: unat_word_ariths)
next
  case False
  then have "unat c = 255"
    using byte_bound [of c] by (simp add: word_less_nat_alt)
  then have "c = 255" by (simp add: word_unat_eq_iff)
  then show ?thesis by simp
qed

lemma le_val_inc_le: "le_val (inc_le s) = (le_val s + 1) mod 2 ^ (8 * length s)"
proof (induction s)
  case Nil
  show ?case by simp
next
  case (Cons c cs)
  have p: "(2::nat) ^ (8 * length (c # cs)) = 256 * 2 ^ (8 * length cs)"
    by (simp add: power_add)
  show ?case
  proof (cases "c < 255")
    case True
    have "unat c < 255" using True by (simp add: word_less_nat_alt)
    moreover have "le_val cs + 1 \<le> 2 ^ (8 * length cs)"
      using le_val_bound [of cs] by simp
    then have "256 * (le_val cs + 1) \<le> 256 * 2 ^ (8 * length cs)"
      by (rule mult_le_mono2)
    ultimately have "le_val (c # cs) + 1 < 2 ^ (8 * length (c # cs))"
      unfolding p by simp
    then show ?thesis using True by (simp add: unat_succ_byte)
  next
    case False
    then have u: "unat c = 255"
      using byte_bound [of c] by (simp add: word_less_nat_alt)
    have "le_val (inc_le (c # cs)) = 256 * ((le_val cs + 1) mod 2 ^ (8 * length cs))"
      using False Cons by (simp add: unat_succ_byte)
    also have "\<dots> = (256 * (le_val cs + 1)) mod (256 * 2 ^ (8 * length cs))"
      by (simp add: mult_mod_right)
    also have "256 * (le_val cs + 1) = le_val (c # cs) + 1"
      using u by simp
    finally show ?thesis unfolding p .
  qed
qed

text \<open>
  Claim C7. For every state of a half, \<open>incSeq\<close> keeps the key and the length of the
  nonce and replaces the nonce by its successor as a little-endian integer: the value
  after is the value before plus one, modulo \<open>2 ^ (8 * nonce length)\<close>. Byte 0 is the
  first to change: a first byte below 255 is incremented and nothing else is touched,
  a first byte of 255 wraps to 0 and the carry goes on into the bytes after it.
\<close>

theorem incSeq_le_successor:
  "le_val (seq (incSeq h)) = (le_val (seq h) + 1) mod 2 ^ (8 * length (seq h))
   \<and> length (seq (incSeq h)) = length (seq h)
   \<and> aead (incSeq h) = aead h
   \<and> seq (incSeq (h\<lparr>seq := c # cs\<rparr>)) =
       (if c < 255 then (c + 1) # cs
        else 0 # seq (incSeq (h\<lparr>seq := cs\<rparr>)))"
proof -
  have "c = 255" if "\<not> c < 255"
  proof -
    have "unat c = 255"
      using that byte_bound [of c] by (simp add: word_less_nat_alt)
    then show ?thesis by (simp add: word_unat_eq_iff)
  qed
  then show ?thesis
    by (auto simp add: incSeq_def incSeq_loop_0 le_val_inc_le)
qed

section \<open>The record header\<close>

text \<open>\<^verbatim>\<open>binary.BigEndian.PutUint32\<close> and \<^verbatim>\<open>binary.BigEndian.Uint32\<close>; the latter panics on
  a slice shorter than four bytes.\<close>

definition PutUint32 :: "uint32 \<Rightarrow> bytes" where
  "PutUint32 v =
     [ucast (drop_bit 24 v), ucast (drop_bit 16 v), ucast (drop_bit 8 v), ucast v]"

definition Uint32 :: "bytes \<Rightarrow> uint32 option" where
  "Uint32 b =
     (case b of
        b0 # b1 # b2 # b3 # _ \<Rightarrow>
          Some (ucast b3 OR push_bit 8 (ucast b2) OR push_bit 16 (ucast b1)
                OR push_bit 24 (ucast b0))
      | _ \<Rightarrow> None)"

definition pData :: uint32 where "pData = 0"
definition pStartRekey :: uint32 where "pStartRekey = 1"
definition pClientKeyUpdate :: uint32 where "pClientKeyUpdate = 2"
definition pFinalizeRekey :: uint32 where "pFinalizeRekey = 3"

text \<open>
  The header integer as the two writers build it and as the reader takes it apart.
  \<^verbatim>\<open>sendBuffer\<close>: \<^verbatim>\<open>headerInt := cmd | uint32(buf.Len()<<8)\<close> (the shift is on Go's
  64-bit \<^verbatim>\<open>int\<close>, the conversion truncates). \<^verbatim>\<open>Write\<close>:
  \<^verbatim>\<open>headerInt := uint32(len(chunk)) << 8\<close>. \<^verbatim>\<open>Read\<close>: \<^verbatim>\<open>cmd := cnt & 0xff; cnt = cnt >> 8\<close>.
\<close>

definition sendBuffer_header :: "uint32 \<Rightarrow> nat \<Rightarrow> uint32" where
  "sendBuffer_header cmd len = cmd OR ucast (push_bit 8 (word_of_nat len :: 64 word))"

definition Write_header :: "nat \<Rightarrow> uint32" where
  "Write_header len = push_bit 8 (word_of_nat len)"

definition Read_header :: "uint32 \<Rightarrow> uint32 \<times> uint32" where
  "Read_header cnt = (cnt AND 0xff, drop_bit 8 cnt)"

lemma Uint32_PutUint32 [simp]: "Uint32 (PutUint32 v) = Some v"
proof -
  have "ucast (ucast v :: byte) OR push_bit 8 (ucast (ucast (drop_bit 8 v) :: byte))
        OR push_bit 16 (ucast (ucast (drop_bit 16 v) :: byte))
        OR push_bit 24 (ucast (ucast (drop_bit 24 v) :: byte)) = v"
  proof (rule bit_eqI)
    fix n
    assume "possible_bit TYPE(uint32) n"
    then have n: "n < 32" by (simp add: possible_bit_word)
    consider "n < 8" | "8 \<le> n" "n < 16" | "16 \<le> n" "n < 24" | "24 \<le> n"
      by linarith
    then show "bit (ucast (ucast v :: byte)
        OR push_bit 8 (ucast (ucast (drop_bit 8 v) :: byte))
        OR push_bit 16 (ucast (ucast (drop_bit 16 v) :: byte))
        OR push_bit 24 (ucast (ucast (drop_bit 24 v) :: byte)) :: uint32) n = bit v n"
      using n by cases (auto simp add: bit_simps)
  qed
  then show ?thesis by (simp add: Uint32_def PutUint32_def)
qed

lemma length_PutUint32 [simp]: "length (PutUint32 v) = 4"
  by (simp add: PutUint32_def)

lemma mask8: "(0xff :: uint32) = mask 8"
  by (simp add: mask_eq_exp_minus_1)

lemma Read_header_sendBuffer_header:
  assumes "cmd \<le> 0xff" and "n < 2 ^ 24"
  shows "Read_header (sendBuffer_header cmd n) = (cmd, word_of_nat n)"
proof -
  have "cmd < 2 ^ 8"
    using assms(1) by (simp add: word_less_nat_alt word_le_nat_alt)
  then have c: "cmd AND mask 8 = cmd" by (rule less_mask_eq)
  have t: "take_bit 24 n = n"
    by (rule take_bit_nat_eq_self) (use assms(2) in simp)
  have 1: "(cmd OR ucast (push_bit 8 (word_of_nat n :: 64 word))) AND mask 8 = cmd"
    apply (subst (2) c [symmetric])
    apply (rule bit_eqI)
    apply (auto simp add: bit_simps)
    done
  have 2: "drop_bit 8 (cmd OR ucast (push_bit 8 (word_of_nat n :: 64 word)))
           = (word_of_nat n :: uint32)"
    apply (subst c [symmetric])
    apply (subst (1 2) t [symmetric])
    apply (rule bit_eqI)
    apply (auto simp add: bit_simps)
    done
  show ?thesis
    unfolding Read_header_def sendBuffer_header_def mask8 using 1 2 by simp
qed

lemma Read_header_Write_header:
  assumes "n < 2 ^ 24"
  shows "Read_header (Write_header n) = (pData, word_of_nat n)"
proof -
  have t: "take_bit 24 n = n"
    by (rule take_bit_nat_eq_self) (use assms in simp)
  have 1: "(push_bit 8 (word_of_nat n) :: uint32) AND mask 8 = 0"
    apply (rule bit_eqI)
    apply (auto simp add: bit_simps)
    done
  have 2: "drop_bit 8 (push_bit 8 (word_of_nat n) :: uint32) = (word_of_nat n :: uint32)"
    apply (subst (1 2) t [symmetric])
    apply (rule bit_eqI)
    apply (auto simp add: bit_simps)
    done
  show ?thesis
    unfolding Read_header_def Write_header_def mask8 pData_def using 1 2 by simp
qed

lemma unat_word_of_nat_24: "n < 2 ^ 24 \<Longrightarrow> unat (word_of_nat n :: uint32) = n"
  by (simp add: unat_of_nat take_bit_nat_eq_self)

text \<open>
  Claim C6. The header is four bytes holding a big-endian 32-bit integer. For every
  command value that fits the low byte (the four commands are 0, 1, 2 and 3) and every
  payload length below \<open>2 ^ 24\<close>, the integer that \<open>sendBuffer\<close> builds, written
  big-endian and read back, is taken apart by the reader into that command and that
  length; the same holds for the header that \<open>Write\<close> builds, whose command is \<open>pData\<close>.
\<close>

theorem header_roundtrip:
  assumes "cmd \<le> 0xff" and "n < 2 ^ 24"
  shows "length (PutUint32 (sendBuffer_header cmd n)) = 4
     \<and> map_option Read_header (Uint32 (PutUint32 (sendBuffer_header cmd n)))
         = Some (cmd, word_of_nat n)
     \<and> map_option Read_header (Uint32 (PutUint32 (Write_header n)))
         = Some (pData, word_of_nat n)
     \<and> unat (word_of_nat n :: uint32) = n
     \<and> cmd = sendBuffer_header cmd n AND 0xff
     \<and> word_of_nat n = drop_bit 8 (sendBuffer_header cmd n)"
proof -
  have "Read_header (sendBuffer_header cmd n) = (cmd, word_of_nat n)"
    using assms by (rule Read_header_sendBuffer_header)
  moreover have "Read_header (Write_header n) = (pData, word_of_nat n)"
    using assms(2) by (rule Read_header_Write_header)
  moreover have "unat (word_of_nat n :: uint32) = n"
    using assms(2) by (rule unat_word_of_nat_24)
  ultimately show ?thesis by (simp add: Read_header_def)
qed

theorem header_roundtrip_witness:
  "pClientKeyUpdate \<le> 0xff \<and> (32::nat) < 2 ^ 24
   \<and> PutUint32 (sendBuffer_header pClientKeyUpdate 32) = [0, 0, 32, 2]
   \<and> map_option Read_header (Uint32 [0, 0, 32, 2]) = Some (pClientKeyUpdate, 32)"
proof -
  have h1: "pClientKeyUpdate \<le> 0xff" by (simp add: pClientKeyUpdate_def)
  have h2: "(32::nat) < 2 ^ 24" by simp
  have e: "PutUint32 (sendBuffer_header pClientKeyUpdate 32) = [0, 0, 32, 2]"
    by (simp add: PutUint32_def sendBuffer_header_def pClientKeyUpdate_def)
  show ?thesis
    using header_roundtrip [OF h1 h2] h1 e by simp
qed

section \<open>The libraries the connection calls\<close>

text \<open>
  The cryptographic primitives are code of Go's libraries, not of this repository: they
  are parameters of the model. \<open>aead_Seal key nonce plaintext\<close> and
  \<open>aead_Open key nonce ciphertext\<close> are AES-GCM's \<^verbatim>\<open>Seal\<close> and \<^verbatim>\<open>Open\<close> with no additional
  data (\<open>None\<close>: the tag is rejected); \<open>ScalarBaseMult\<close> and \<open>ScalarMult\<close> are curve25519's;
  \<open>hkdf secret salt info\<close> is the output stream of HKDF over SHA-512, as far as it goes;
  \<open>hmac_sha256 key message\<close> is the HMAC.
\<close>

record prims =
  aead_Seal :: "bytes \<Rightarrow> bytes \<Rightarrow> bytes \<Rightarrow> bytes"
  aead_Open :: "bytes \<Rightarrow> bytes \<Rightarrow> bytes \<Rightarrow> bytes option"
  ScalarBaseMult :: "bytes \<Rightarrow> bytes"
  ScalarMult :: "bytes \<Rightarrow> bytes \<Rightarrow> bytes"
  hkdf :: "bytes \<Rightarrow> bytes \<Rightarrow> bytes \<Rightarrow> bytes"
  hmac_sha256 :: "bytes \<Rightarrow> bytes \<Rightarrow> bytes"

text \<open>Constants of \<^verbatim>\<open>crypto/cipher\<close> and \<^verbatim>\<open>crypto/aes\<close>: GCM's tag and nonce sizes, the AES block
  size; \<open>cKeySize\<close> is the repository's own.\<close>

definition Overhead :: nat where "Overhead = 16"
definition NonceSize :: nat where "NonceSize = 12"
definition BlockSize :: nat where "BlockSize = 16"
definition cKeySize :: nat where "cKeySize = 32"

text \<open>A value of type \<^verbatim>\<open>[32]byte\<close>: whatever a primitive returns is cut or zero-padded to it.\<close>

definition arr32 :: "bytes \<Rightarrow> bytes" where
  "arr32 xs = take 32 (xs @ replicate 32 0)"

subsection \<open>The carrier\<close>

text \<open>
  The \<^verbatim>\<open>net.Conn\<close> under the connection, seen from one endpoint. \<open>inp\<close> is what the peer has
  sent and this side has not read yet, in the segments in which single \<^verbatim>\<open>Read\<close> calls
  deliver it; once it is used up a read reports \<open>inp_err\<close> (\<open>EOF\<close> for a closed stream).
  \<open>out\<close> is everything written so far. \<open>out_room\<close> is how many more bytes the carrier
  accepts (\<open>None\<close>: no limit); a write that does not fit is cut there and reports
  \<open>out_err\<close> (\<open>None\<close>: a short count with a nil error).
\<close>

record carrier =
  inp :: "bytes list"
  inp_err :: error
  out :: bytes
  out_room :: "nat option"
  out_err :: "error option"

definition conn_Read :: "nat \<Rightarrow> carrier \<Rightarrow> carrier \<times> bytes \<times> error option" where
  "conn_Read n u =
     (if n = 0 then (u, [], None)
      else case inp u of
             [] \<Rightarrow> (u, [], Some (inp_err u))
           | s # ss \<Rightarrow>
               if length s \<le> n then (u\<lparr>inp := ss\<rparr>, s, None)
               else (u\<lparr>inp := drop n s # ss\<rparr>, take n s, None))"

definition conn_Write :: "bytes \<Rightarrow> carrier \<Rightarrow> carrier \<times> nat \<times> error option" where
  "conn_Write p u =
     (case out_room u of
        None \<Rightarrow> (u\<lparr>out := out u @ p\<rparr>, length p, None)
      | Some k \<Rightarrow>
          if length p \<le> k
          then (u\<lparr>out := out u @ p, out_room := Some (k - length p)\<rparr>, length p, None)
          else (u\<lparr>out := out u @ take k p, out_room := Some 0\<rparr>, k, out_err u))"

text \<open>
  What a loop of \<^verbatim>\<open>Read\<close> calls that asks for \<open>n\<close> bytes in all gets from the segments
  (the loop of \<^verbatim>\<open>io.ReadAtLeast\<close>, and of \<^verbatim>\<open>bytes.Buffer.ReadFrom\<close> on a limited reader): the
  bytes, the segments left, and whether the input ran out first.
\<close>

fun take_segs :: "nat \<Rightarrow> bytes list \<Rightarrow> bytes \<times> bytes list \<times> bool" where
  "take_segs n [] = ([], [], 0 < n)"
| "take_segs n (s # ss) =
     (if n = 0 then ([], s # ss, False)
      else if length s \<le> n
      then (case take_segs (n - length s) ss of (g, r, e) \<Rightarrow> (s @ g, r, e))
      else (take n s, drop n s # ss, False))"

text \<open>\<^verbatim>\<open>io.ReadFull(c.Conn, buf)\<close> with \<open>n = len(buf)\<close>: the bytes read and the error.\<close>

definition ReadFull :: "nat \<Rightarrow> carrier \<Rightarrow> carrier \<times> bytes \<times> error option" where
  "ReadFull n u =
     (case take_segs n (inp u) of
        (g, r, e) \<Rightarrow>
          (u\<lparr>inp := r\<rparr>, g,
           if e then Some (if g \<noteq> [] \<and> inp_err u = EOF then ErrUnexpectedEOF else inp_err u)
           else None))"

text \<open>\<^verbatim>\<open>io.CopyN(&buf, c.Conn, n)\<close>: the bytes appended to the buffer and the error
  (\<open>EOF\<close> when fewer than \<open>n\<close> arrived before the end of the stream).\<close>

definition CopyN :: "nat \<Rightarrow> carrier \<Rightarrow> carrier \<times> bytes \<times> error option" where
  "CopyN n u =
     (case take_segs n (inp u) of
        (g, r, e) \<Rightarrow> (u\<lparr>inp := r\<rparr>, g, if e then Some (inp_err u) else None))"

text \<open>\<^verbatim>\<open>binary.Write(c.Conn, binary.BigEndian, v)\<close> returns the error of the one \<^verbatim>\<open>Write\<close>
  and drops its count; \<^verbatim>\<open>binary.Read\<close> is \<^verbatim>\<open>io.ReadFull\<close> of four bytes.\<close>

definition binary_Write :: "uint32 \<Rightarrow> carrier \<Rightarrow> carrier \<times> error option" where
  "binary_Write v u = (case conn_Write (PutUint32 v) u of (u', n, e) \<Rightarrow> (u', e))"

definition binary_Read :: "carrier \<Rightarrow> carrier \<times> uint32 res" where
  "binary_Read u =
     (case ReadFull 4 u of
        (u', bs, Some e) \<Rightarrow> (u', Err e)
      | (u', bs, None) \<Rightarrow>
          (case Uint32 bs of None \<Rightarrow> (u', Panic) | Some v \<Rightarrow> (u', Ok v)))"

text \<open>The pattern
  \<^verbatim>\<open>n, err := c.Conn.Write(ct); if err != nil { return err }; if n != len(ct) { return io.ErrShortWrite }\<close>.\<close>

definition Write_checked :: "bytes \<Rightarrow> carrier \<Rightarrow> carrier \<times> error option" where
  "Write_checked ct u =
     (case conn_Write ct u of
        (u', n, Some e) \<Rightarrow> (u', Some e)
      | (u', n, None) \<Rightarrow> if n \<noteq> length ct then (u', Some ErrShortWrite) else (u', None))"

text \<open>A reader of random bytes (\<^verbatim>\<open>crypto/rand.Reader\<close>) is the supply of bytes it still has;
  \<^verbatim>\<open>io.ReadFull(rand, buf)\<close> fails when the supply runs out.\<close>

definition rand_ReadFull :: "nat \<Rightarrow> bytes \<Rightarrow> bytes \<times> bytes \<times> error option" where
  "rand_ReadFull n rnd =
     (if n \<le> length rnd then (drop n rnd, take n rnd, None)
      else ([], rnd, Some (if rnd = [] then EOF else ErrUnexpectedEOF)))"

text \<open>\<^verbatim>\<open>bytes.Buffer\<close> is its unread bytes. \<^verbatim>\<open>Read(p)\<close> with \<open>n = len(p)\<close>: the buffer after,
  the bytes copied, the error.\<close>

definition Buffer_Read :: "nat \<Rightarrow> bytes \<Rightarrow> bytes \<times> bytes \<times> error option" where
  "Buffer_Read n b =
     (if b = [] then ([], [], if n = 0 then None else Some EOF)
      else (drop n b, take n b, None))"

section \<open>The connection\<close>

text \<open>
  The process-wide tunables. Go's \<^verbatim>\<open>int\<close> is taken as 64 bits where the code computes with
  it (\<open>rekeyLeft\<close>); times and durations are integers (nanoseconds).
\<close>

record tunables =
  WriteBufferSize :: int
  RekeyAfterBytes :: "64 word"
  KeyValidityPeriod :: int

text \<open>
  \<^verbatim>\<open>type Conn struct\<close>, field by field (a nil pointer or nil slice is \<open>None\<close>; \<open>conn\<close> is
  the embedded \<^verbatim>\<open>net.Conn\<close>; \<open>read_half\<close> and \<open>write_half\<close> are the fields \<^verbatim>\<open>read\<close> and
  \<^verbatim>\<open>write\<close>; the mutex is left out: the model runs one call at a time).
  \<open>writeBuf\<close> and \<open>headerBuf\<close> are scratch storage of which the code only ever observes
  the length. The last two fields are not fields of the struct: they hold the part of
  the process state that the methods read, the supply of \<^verbatim>\<open>crypto/rand.Reader\<close> and the
  value of \<^verbatim>\<open>time.Now()\<close>.
\<close>

record Conn =
  conn :: carrier
  privKey :: "bytes option"
  pubKey :: "bytes option"
  peerKey :: "bytes option"
  shared :: "bytes option"
  server :: bool
  writeBuf :: bytes
  readBuf :: bytes
  rekeyAfter :: int
  rekeyLeft :: "64 word"
  read_half :: "half option"
  write_half :: "half option"
  nextPubKey :: "bytes option"
  nextPrivKey :: "bytes option"
  nextPeerKey :: "bytes option"
  nextShared :: "bytes option"
  nextKeys :: "bytes list option"
  nextIv :: "bytes option"
  headerBuf :: bytes
  rand_Reader :: bytes
  now :: int

subsection \<open>Halves\<close>

text \<open>\<^verbatim>\<open>func (h *half) setup\<close>: \<^verbatim>\<open>aes.NewCipher\<close> refuses a key that is not 16, 24 or 32 bytes long and the
  half is left as it was; otherwise the half gets the new AEAD and a zero nonce.\<close>

definition half_setup :: "bytes \<Rightarrow> bytes \<Rightarrow> half \<Rightarrow> half \<times> error option" where
  "half_setup key iv h =
     (if length key = 16 \<or> length key = 24 \<or> length key = 32
      then (h\<lparr>aead := Some key, seq := replicate NonceSize 0\<rparr>, None)
      else (h, Some ErrKeySize))"

text \<open>\<^verbatim>\<open>h.aead.Seal(dst, h.seq, pt, nil)\<close> and \<^verbatim>\<open>h.aead.Open(dst, h.seq, ct, nil)\<close> on a half
  pointer: a nil half, a nil AEAD or a nonce of the wrong length panics.\<close>

definition half_Seal :: "prims \<Rightarrow> half option \<Rightarrow> bytes \<Rightarrow> bytes option" where
  "half_Seal P ho pt =
     (case ho of
        None \<Rightarrow> None
      | Some h \<Rightarrow>
          (case aead h of
             None \<Rightarrow> None
           | Some k \<Rightarrow>
               if length (seq h) \<noteq> NonceSize then None
               else Some (aead_Seal P k (seq h) pt)))"

definition half_Open :: "prims \<Rightarrow> half option \<Rightarrow> bytes \<Rightarrow> bytes res" where
  "half_Open P ho ct =
     (case ho of
        None \<Rightarrow> Panic
      | Some h \<Rightarrow>
          (case aead h of
             None \<Rightarrow> Panic
           | Some k \<Rightarrow>
               if length (seq h) \<noteq> NonceSize then Panic
               else (case aead_Open P k (seq h) ct of
                       None \<Rightarrow> Err ErrOpen
                     | Some pt \<Rightarrow> Ok pt)))"

text \<open>\<^verbatim>\<open>h.aead.Overhead()\<close> on a half pointer.\<close>

definition half_Overhead :: "half option \<Rightarrow> nat option" where
  "half_Overhead ho =
     (case ho of
        None \<Rightarrow> None
      | Some h \<Rightarrow> (case aead h of None \<Rightarrow> None | Some k \<Rightarrow> Some Overhead))"

text \<open>\<^verbatim>\<open>ct := c.write.aead.Seal(..., c.write.seq, pt, nil); c.write.incSeq()\<close>.\<close>

definition write_Seal :: "prims \<Rightarrow> bytes \<Rightarrow> Conn \<Rightarrow> (bytes \<times> Conn) option" where
  "write_Seal P pt c =
     (case half_Seal P (write_half c) pt of
        None \<Rightarrow> None
      | Some ct \<Rightarrow> Some (ct, c\<lparr>write_half := map_option incSeq (write_half c)\<rparr>))"

subsection \<open>Keys\<close>

definition GenerateKey :: "prims \<Rightarrow> bytes \<Rightarrow> bytes \<times> (bytes \<times> bytes) res" where
  "GenerateKey P rnd =
     (case rand_ReadFull 32 rnd of
        (rnd', priv, Some e) \<Rightarrow> (rnd', Err e)
      | (rnd', priv, None) \<Rightarrow> (rnd', Ok (arr32 (ScalarBaseMult P priv), priv)))"

text \<open>\<^verbatim>\<open>NewConn\<close> allocates the write buffer with the literal 128 and reads no tunable.\<close>

definition NewConn :: "tunables \<Rightarrow> carrier \<Rightarrow> bytes \<Rightarrow> int \<Rightarrow> Conn" where
  "NewConn G u rnd t =
     \<lparr>conn = u, privKey = None, pubKey = None, peerKey = None, shared = None,
      server = False, writeBuf = replicate 128 0, readBuf = [],
      rekeyAfter = 0, rekeyLeft = 0, read_half = None, write_half = None,
      nextPubKey = None, nextPrivKey = None, nextPeerKey = None, nextShared = None,
      nextKeys = None, nextIv = None, headerBuf = [],
      rand_Reader = rnd, now = t\<rparr>"

definition RekeyNext :: "Conn \<Rightarrow> Conn" where
  "RekeyNext c = c\<lparr>rekeyLeft := 0\<rparr>"

text \<open>\<^verbatim>\<open>makeKeys\<close> reads two blocks of 16 bytes from the HKDF stream and panics when the
  stream is too short.\<close>

definition makeKeys :: "prims \<Rightarrow> bytes \<Rightarrow> bytes \<Rightarrow> bytes \<Rightarrow> bytes list res" where
  "makeKeys P sharedKey salt info =
     (let stream = hkdf P sharedKey salt info in
      if length stream < BlockSize then Panic
      else let k1 = take BlockSize stream; stream' = drop BlockSize stream in
        if length stream' < BlockSize then Panic
        else let k2 = take BlockSize stream' in Ok [k1, k2])"

text \<open>Both halves get their keys: \<^verbatim>\<open>c.read.setup(kr, iv); c.write.setup(kw, iv)\<close>, the errors
  of \<^verbatim>\<open>setup\<close> being dropped as the code drops them.\<close>

definition setup_read :: "bytes \<Rightarrow> bytes \<Rightarrow> Conn \<Rightarrow> Conn option" where
  "setup_read key iv c =
     (case read_half c of None \<Rightarrow> None | Some h \<Rightarrow> Some (c\<lparr>read_half := Some (fst (half_setup key iv h))\<rparr>))"

definition setup_write :: "bytes \<Rightarrow> bytes \<Rightarrow> Conn \<Rightarrow> Conn option" where
  "setup_write key iv c =
     (case write_half c of None \<Rightarrow> None | Some h \<Rightarrow> Some (c\<lparr>write_half := Some (fst (half_setup key iv h))\<rparr>))"

text \<open>The salt exchange of \<^verbatim>\<open>Negotiate\<close>: the server reads a length and that many bytes, the
  client draws 16 random bytes and sends them.\<close>

definition Negotiate_iv :: "bool \<Rightarrow> Conn \<Rightarrow> Conn \<times> bytes res" where
  "Negotiate_iv srv c =
     (if srv then
        (case binary_Read (conn c) of
           (u, Err e) \<Rightarrow> (c\<lparr>conn := u\<rparr>, Err e)
         | (u, Panic) \<Rightarrow> (c\<lparr>conn := u\<rparr>, Panic)
         | (u, Ok other) \<Rightarrow>
             (case ReadFull (unat other) u of
                (u', iv, Some e) \<Rightarrow> (c\<lparr>conn := u'\<rparr>, Err e)
              | (u', iv, None) \<Rightarrow>
                  if length iv \<noteq> unat other then (c\<lparr>conn := u'\<rparr>, Err ErrShortBuffer)
                  else (c\<lparr>conn := u'\<rparr>, Ok iv)))
      else
        (case rand_ReadFull BlockSize (rand_Reader c) of
           (rnd, iv, Some e) \<Rightarrow> (c\<lparr>rand_Reader := rnd\<rparr>, Err e)
         | (rnd, iv, None) \<Rightarrow>
             if length iv \<noteq> BlockSize then (c\<lparr>rand_Reader := rnd\<rparr>, Err ErrShortBuffer)
             else
               (case binary_Write (word_of_nat (length iv)) (conn c) of
                  (u, Some e) \<Rightarrow> (c\<lparr>rand_Reader := rnd, conn := u\<rparr>, Err e)
                | (u, None) \<Rightarrow>
                    (case Write_checked iv u of
                       (u', Some e) \<Rightarrow> (c\<lparr>rand_Reader := rnd, conn := u'\<rparr>, Err e)
                     | (u', None) \<Rightarrow> (c\<lparr>rand_Reader := rnd, conn := u'\<rparr>, Ok iv)))))"

text \<open>The end of \<^verbatim>\<open>Negotiate\<close>, from \<^verbatim>\<open>c.rekeyLeft = RekeyAfterBytes\<close> on.\<close>

definition Negotiate_keys :: "prims \<Rightarrow> tunables \<Rightarrow> bytes \<Rightarrow> Conn \<Rightarrow> Conn \<times> unit res" where
  "Negotiate_keys P G iv c =
     (let c1 = c\<lparr>rekeyLeft := RekeyAfterBytes G,
                 read_half := Some \<lparr>aead = None, seq = []\<rparr>,
                 write_half := Some \<lparr>aead = None, seq = []\<rparr>\<rparr>
      in case shared c1 of
           None \<Rightarrow> (c1, Panic)
         | Some sharedKey \<Rightarrow>
             (case makeKeys P sharedKey iv [] of
                Panic \<Rightarrow> (c1, Panic)
              | Err e \<Rightarrow> (c1, Err e)
              | Ok newKeys \<Rightarrow>
                  (let kr = (if server c1 then newKeys ! 1 else newKeys ! 0);
                       kw = (if server c1 then newKeys ! 0 else newKeys ! 1)
                   in case setup_read kr iv c1 of
                        None \<Rightarrow> (c1, Panic)
                      | Some c2 \<Rightarrow>
                          (case setup_write kw iv c2 of
                             None \<Rightarrow> (c2, Panic)
                           | Some c3 \<Rightarrow>
                               (case half_Overhead (write_half c3) of
                                  None \<Rightarrow> (c3, Panic)
                                | Some ov \<Rightarrow>
                                    (c3\<lparr>headerBuf := replicate (4 + ov) 0,
                                        rekeyAfter := now c3 + KeyValidityPeriod G\<rparr>,
                                     Ok ()))))))"

definition Negotiate :: "prims \<Rightarrow> tunables \<Rightarrow> bool \<Rightarrow> Conn \<Rightarrow> Conn \<times> unit res" where
  "Negotiate P G srv c =
     (case GenerateKey P (rand_Reader c) of
        (rnd, Err e) \<Rightarrow> (c\<lparr>rand_Reader := rnd\<rparr>, Err e)
      | (rnd, Panic) \<Rightarrow> (c\<lparr>rand_Reader := rnd\<rparr>, Panic)
      | (rnd, Ok (pub, priv)) \<Rightarrow>
          (let c1 = c\<lparr>rand_Reader := rnd, pubKey := Some pub, privKey := Some priv,
                      server := srv\<rparr>
           in case binary_Write 32 (conn c1) of
                (u1, Some e) \<Rightarrow> (c1\<lparr>conn := u1\<rparr>, Err e)
              | (u1, None) \<Rightarrow>
                  (case Write_checked pub u1 of
                     (u2, Some e) \<Rightarrow> (c1\<lparr>conn := u2\<rparr>, Err e)
                   | (u2, None) \<Rightarrow>
                       (case binary_Read u2 of
                          (u3, Err e) \<Rightarrow> (c1\<lparr>conn := u3\<rparr>, Err e)
                        | (u3, Panic) \<Rightarrow> (c1\<lparr>conn := u3\<rparr>, Panic)
                        | (u3, Ok other) \<Rightarrow>
                            (case conn_Read 32 u3 of
                               (u4, pk, e) \<Rightarrow>
                                 (let c2 = c1\<lparr>conn := u4, peerKey := Some (arr32 pk)\<rparr>
                                  in case e of
                                       Some e' \<Rightarrow> (c2, Err e')
                                     | None \<Rightarrow>
                                         if length pk \<noteq> 32 then (c2, Err ErrShortBuffer)
                                         else
                                           (let c3 = c2\<lparr>shared :=
                                                  Some (arr32 (ScalarMult P priv (arr32 pk)))\<rparr>
                                            in case Negotiate_iv srv c3 of
                                                 (c4, Err e') \<Rightarrow> (c4, Err e')
                                               | (c4, Panic) \<Rightarrow> (c4, Panic)
                                               | (c4, Ok iv) \<Rightarrow> Negotiate_keys P G iv c4)))))))"

text \<open>\<^verbatim>\<open>NewClient\<close> and \<^verbatim>\<open>NewServer\<close> return a pointer and an error. \<^verbatim>\<open>NewConn\<close> never
  fails; the result of \<^verbatim>\<open>Negotiate\<close> is dropped; only a panic passes through.\<close>

definition NewClient :: "prims \<Rightarrow> tunables \<Rightarrow> carrier \<Rightarrow> bytes \<Rightarrow> int \<Rightarrow> (Conn option \<times> error option) res" where
  "NewClient P G u rnd t =
     (case Negotiate P G False (NewConn G u rnd t) of
        (c, Panic) \<Rightarrow> Panic
      | (c, _) \<Rightarrow> Ok (Some c, None))"

definition NewServer :: "prims \<Rightarrow> tunables \<Rightarrow> carrier \<Rightarrow> bytes \<Rightarrow> int \<Rightarrow> (Conn option \<times> error option) res" where
  "NewServer P G u rnd t =
     (case Negotiate P G True (NewConn G u rnd t) of
        (c, Panic) \<Rightarrow> Panic
      | (c, _) \<Rightarrow> Ok (Some c, None))"

subsection \<open>Auth tokens\<close>

definition AuthToken :: "prims \<Rightarrow> Conn \<Rightarrow> bytes option" where
  "AuthToken P c =
     (case shared c of
        None \<Rightarrow> None
      | Some s \<Rightarrow> (case pubKey c of None \<Rightarrow> None | Some p \<Rightarrow> Some (hmac_sha256 P s p)))"

definition PeerAuthToken :: "prims \<Rightarrow> Conn \<Rightarrow> bytes option" where
  "PeerAuthToken P c =
     (case shared c of
        None \<Rightarrow> None
      | Some s \<Rightarrow> (case peerKey c of None \<Rightarrow> None | Some p \<Rightarrow> Some (hmac_sha256 P s p)))"

subsection \<open>Sending a record\<close>

definition sendBuffer :: "prims \<Rightarrow> uint32 \<Rightarrow> bytes \<Rightarrow> Conn \<Rightarrow> Conn \<times> unit res" where
  "sendBuffer P cmd buf c =
     (let header = PutUint32 (sendBuffer_header cmd (length buf))
      in case write_Seal P header c of
           None \<Rightarrow> (c, Panic)
         | Some (ct, c1) \<Rightarrow>
             (case Write_checked ct (conn c1) of
                (u, Some e) \<Rightarrow> (c1\<lparr>conn := u\<rparr>, Err e)
              | (u, None) \<Rightarrow>
                  (let c2 = c1\<lparr>conn := u\<rparr>
                   in case write_Seal P buf c2 of
                        None \<Rightarrow> (c2, Panic)
                      | Some (ct', c3) \<Rightarrow>
                          (case Write_checked ct' (conn c3) of
                             (u', Some e) \<Rightarrow> (c3\<lparr>conn := u'\<rparr>, Err e)
                           | (u', None) \<Rightarrow> (c3\<lparr>conn := u'\<rparr>, Ok ())))))"

subsection \<open>The rekey messages\<close>

definition startRekey :: "prims \<Rightarrow> tunables \<Rightarrow> Conn \<Rightarrow> Conn \<times> unit res" where
  "startRekey P G c =
     (let c1 = c\<lparr>rekeyLeft := RekeyAfterBytes G,
                 rekeyAfter := now c + KeyValidityPeriod G\<rparr>
      in case GenerateKey P (rand_Reader c1) of
           (rnd, Err e) \<Rightarrow> (c1\<lparr>rand_Reader := rnd\<rparr>, Err e)
         | (rnd, Panic) \<Rightarrow> (c1\<lparr>rand_Reader := rnd\<rparr>, Panic)
         | (rnd, Ok (pub, priv)) \<Rightarrow>
             (let c2 = c1\<lparr>rand_Reader := rnd, nextPubKey := Some pub,
                         nextPrivKey := Some priv\<rparr>
              in case rand_ReadFull BlockSize (rand_Reader c2) of
                   (rnd', iv, Some e) \<Rightarrow> (c2\<lparr>rand_Reader := rnd'\<rparr>, Err e)
                 | (rnd', iv, None) \<Rightarrow>
                     if length iv \<noteq> BlockSize
                     then (c2\<lparr>rand_Reader := rnd'\<rparr>, Err ErrShortBuffer)
                     else sendBuffer P pStartRekey (pub @ iv)
                            (c2\<lparr>rand_Reader := rnd', nextIv := Some iv\<rparr>)))"

text \<open>A nil \<^verbatim>\<open>nextIv\<close> is the empty salt.\<close>

definition iv_bytes :: "bytes option \<Rightarrow> bytes" where
  "iv_bytes iv = (case iv of None \<Rightarrow> [] | Some b \<Rightarrow> b)"

text \<open>\<^verbatim>\<open>c.nextShared = new([32]byte); curve25519.ScalarMult(c.nextShared, c.nextPrivKey,
  c.nextPeerKey); c.nextKeys = makeKeys((*c.nextShared)[:], c.nextIv, nil)\<close>.\<close>

definition derive_next :: "prims \<Rightarrow> Conn \<Rightarrow> Conn \<times> unit res" where
  "derive_next P c =
     (case nextPrivKey c of
        None \<Rightarrow> (c, Panic)
      | Some priv \<Rightarrow>
          (case nextPeerKey c of
             None \<Rightarrow> (c, Panic)
           | Some peer \<Rightarrow>
               (let sh = arr32 (ScalarMult P priv peer);
                    c1 = c\<lparr>nextShared := Some sh\<rparr>
                in case makeKeys P sh (iv_bytes (nextIv c1)) [] of
                     Panic \<Rightarrow> (c1, Panic)
                   | Err e \<Rightarrow> (c1, Err e)
                   | Ok ks \<Rightarrow> (c1\<lparr>nextKeys := Some ks\<rparr>, Ok ()))))"

text \<open>\<^verbatim>\<open>c.nextKeys[i]\<close>: a nil slice or an index out of range panics.\<close>

definition nextKey :: "nat \<Rightarrow> Conn \<Rightarrow> bytes option" where
  "nextKey i c =
     (case nextKeys c of
        None \<Rightarrow> None
      | Some ks \<Rightarrow> if i < length ks then Some (ks ! i) else None)"

text \<open>The commit at the end of \<^verbatim>\<open>sendServerRekeyed\<close> and \<^verbatim>\<open>readClientRekeyFinal\<close>: the
  code sets \<^verbatim>\<open>nextPeerKey\<close> to nil twice and leaves \<^verbatim>\<open>nextPubKey\<close> as it is.\<close>

definition commit_next :: "Conn \<Rightarrow> Conn" where
  "commit_next c =
     c\<lparr>shared := nextShared c, privKey := nextPrivKey c, peerKey := nextPeerKey c,
       pubKey := nextPubKey c,
       nextShared := None, nextPrivKey := None, nextPeerKey := None,
       nextIv := None, nextKeys := None\<rparr>"

definition sendClientRekey :: "prims \<Rightarrow> Conn \<Rightarrow> Conn \<times> unit res" where
  "sendClientRekey P c =
     (case GenerateKey P (rand_Reader c) of
        (rnd, Err e) \<Rightarrow> (c\<lparr>rand_Reader := rnd\<rparr>, Err e)
      | (rnd, Panic) \<Rightarrow> (c\<lparr>rand_Reader := rnd\<rparr>, Panic)
      | (rnd, Ok (pub, priv)) \<Rightarrow>
          (case sendBuffer P pClientKeyUpdate pub
                  (c\<lparr>rand_Reader := rnd, nextPubKey := Some pub, nextPrivKey := Some priv\<rparr>) of
             (c1, Err e) \<Rightarrow> (c1, Err e)
           | (c1, Panic) \<Rightarrow> (c1, Panic)
           | (c1, Ok _) \<Rightarrow>
               (case derive_next P c1 of
                  (c2, Err e) \<Rightarrow> (c2, Err e)
                | (c2, Panic) \<Rightarrow> (c2, Panic)
                | (c2, Ok _) \<Rightarrow>
                    (case nextKey 1 c2 of
                       None \<Rightarrow> (c2, Panic)
                     | Some k \<Rightarrow>
                         (case setup_write k (iv_bytes (nextIv c2)) c2 of
                            None \<Rightarrow> (c2, Panic)
                          | Some c3 \<Rightarrow> (c3, Ok ()))))))"

definition sendServerRekeyed :: "prims \<Rightarrow> Conn \<Rightarrow> Conn \<times> unit res" where
  "sendServerRekeyed P c =
     (case sendBuffer P pFinalizeRekey [] c of
        (c1, Err e) \<Rightarrow> (c1, Err e)
      | (c1, Panic) \<Rightarrow> (c1, Panic)
      | (c1, Ok _) \<Rightarrow>
          (case nextKey 0 c1 of
             None \<Rightarrow> (c1, Panic)
           | Some k \<Rightarrow>
               (case setup_write k (iv_bytes (nextIv c1)) c1 of
                  None \<Rightarrow> (c1, Panic)
                | Some c2 \<Rightarrow> (commit_next c2, Ok ()))))"

subsection \<open>Receiving\<close>

definition readAndCheck :: "prims \<Rightarrow> uint32 \<Rightarrow> Conn \<Rightarrow> Conn \<times> bytes res" where
  "readAndCheck P cnt c =
     (case half_Overhead (read_half c) of
        None \<Rightarrow> (c, Panic)
      | Some ov \<Rightarrow>
          (let wireCnt = unat cnt + ov
           in case ReadFull wireCnt (conn c) of
                (u, buf, Some e) \<Rightarrow> (c\<lparr>conn := u\<rparr>, Err e)
              | (u, buf, None) \<Rightarrow>
                  if length buf \<noteq> wireCnt then (c\<lparr>conn := u\<rparr>, Err ErrShortBuffer)
                  else (c\<lparr>conn := u, read_half := map_option incSeq (read_half c)\<rparr>,
                        half_Open P (read_half c) buf)))"

definition readRekey :: "prims \<Rightarrow> uint32 \<Rightarrow> Conn \<Rightarrow> Conn \<times> unit res" where
  "readRekey P cnt c =
     (case readAndCheck P cnt c of
        (c1, Err e) \<Rightarrow> (c1, Err e)
      | (c1, Panic) \<Rightarrow> (c1, Panic)
      | (c1, Ok buf) \<Rightarrow>
          if length buf \<noteq> cKeySize + BlockSize then (c1, Err ErrBadRekey)
          else sendClientRekey P
                 (c1\<lparr>nextPeerKey := Some (take cKeySize buf),
                     nextIv := Some (drop cKeySize buf)\<rparr>))"

definition readServerRekeyed :: "prims \<Rightarrow> uint32 \<Rightarrow> Conn \<Rightarrow> Conn \<times> unit res" where
  "readServerRekeyed P cnt c =
     (case readAndCheck P cnt c of
        (c1, Err e) \<Rightarrow> (c1, Err e)
      | (c1, Panic) \<Rightarrow> (c1, Panic)
      | (c1, Ok buf) \<Rightarrow>
          if length buf \<noteq> cKeySize then (c1, Err ErrBadRekey)
          else
            (case derive_next P (c1\<lparr>nextPeerKey := Some (take cKeySize buf)\<rparr>) of
               (c2, Err e) \<Rightarrow> (c2, Err e)
             | (c2, Panic) \<Rightarrow> (c2, Panic)
             | (c2, Ok _) \<Rightarrow>
                 (case nextKey 1 c2 of
                    None \<Rightarrow> (c2, Panic)
                  | Some k \<Rightarrow>
                      (case setup_read k (iv_bytes (nextIv c2)) c2 of
                         None \<Rightarrow> (c2, Panic)
                       | Some c3 \<Rightarrow> sendServerRekeyed P c3))))"

definition readClientRekeyFinal :: "prims \<Rightarrow> uint32 \<Rightarrow> Conn \<Rightarrow> Conn \<times> unit res" where
  "readClientRekeyFinal P sz c =
     (case readAndCheck P sz c of
        (c1, Err e) \<Rightarrow> (c1, Err e)
      | (c1, Panic) \<Rightarrow> (c1, Panic)
      | (c1, Ok buf) \<Rightarrow>
          if length buf \<noteq> 0 then (c1, Err ErrBadRekey)
          else
            (case nextKey 0 c1 of
               None \<Rightarrow> (c1, Panic)
             | Some k \<Rightarrow>
                 (case setup_read k (iv_bytes (nextIv c1)) c1 of
                    None \<Rightarrow> (c1, Panic)
                  | Some c2 \<Rightarrow> (commit_next c2, Ok ()))))"

text \<open>
  \<^verbatim>\<open>Read\<close> opens the payload in place: the destination \<^verbatim>\<open>c.readBuf.Bytes()[:0]\<close> is the
  storage of the input. What a failed \<^verbatim>\<open>Open\<close> of Go's GCM leaves there: an input shorter
  than a tag is refused at once and stays as it is; otherwise the output area, which
  is the input without its tag, has been cleared when the tag is found wrong, and the
  tag bytes stay.
\<close>

definition Open_failed :: "bytes \<Rightarrow> bytes" where
  "Open_failed b =
     (if length b < Overhead then b
      else replicate (length b - Overhead) 0 @ drop (length b - Overhead) b)"

text \<open>
  The part of \<^verbatim>\<open>Read\<close> after the \<^verbatim>\<open>switch\<close>, for a \<^verbatim>\<open>pData\<close> header: \<open>len\<close> is \<^verbatim>\<open>len(buf)\<close>.
  The result of \<^verbatim>\<open>io.CopyN\<close> is dropped. \<^verbatim>\<open>Open\<close> works in place on all the bytes of the
  buffer, those left from before and those just copied: on success the buffer is cut to
  the plaintext (\<^verbatim>\<open>Truncate\<close> panics when asked for more than the buffer holds); on
  failure the function returns the error and does nothing about the buffer, which keeps
  its length and holds what \<^verbatim>\<open>Open\<close> left.
\<close>

definition Read_data :: "prims \<Rightarrow> nat \<Rightarrow> uint32 \<Rightarrow> Conn \<Rightarrow> Conn \<times> bytes res" where
  "Read_data P len cnt c =
     (case half_Overhead (write_half c) of
        None \<Rightarrow> (c, Panic)
      | Some ov \<Rightarrow>
          (let wireCnt = cnt + word_of_nat ov
           in case CopyN (unat wireCnt) (conn c) of
                (u, bs, _) \<Rightarrow>
                  (let c1 = c\<lparr>conn := u, readBuf := readBuf c @ bs\<rparr>
                   in case half_Open P (read_half c1) (readBuf c1) of
                        Panic \<Rightarrow> (c1, Panic)
                      | Err e \<Rightarrow> (c1\<lparr>readBuf := Open_failed (readBuf c1)\<rparr>, Err e)
                      | Ok pt \<Rightarrow>
                          if length (readBuf c1) < length pt then (c1, Panic)
                          else
                            (let toExtract = (if len < unat cnt then len else unat cnt)
                             in case Buffer_Read toExtract pt of
                                  (b, got, e) \<Rightarrow>
                                    (let c2 = c1\<lparr>read_half := map_option incSeq (read_half c1),
                                                readBuf := b\<rparr>
                                     in case e of
                                          Some e' \<Rightarrow> (c2, Err e')
                                        | None \<Rightarrow> (c2, Ok got))))))"

text \<open>One pass from the label \<^verbatim>\<open>retry\<close> to either \<^verbatim>\<open>goto retry\<close> or a \<^verbatim>\<open>return\<close>.\<close>

datatype 'a pass = Retry | Return 'a

definition rekey_pass :: "Conn \<times> unit res \<Rightarrow> Conn \<times> (bytes res) pass" where
  "rekey_pass r =
     (case r of
        (c, Err e) \<Rightarrow> (c, Return (Err e))
      | (c, Panic) \<Rightarrow> (c, Return Panic)
      | (c, Ok _) \<Rightarrow> (c, Retry))"

definition Read_pass :: "prims \<Rightarrow> nat \<Rightarrow> Conn \<Rightarrow> Conn \<times> (bytes res) pass" where
  "Read_pass P len c =
     (case ReadFull (length (headerBuf c)) (conn c) of
        (u, hb, Some e) \<Rightarrow> (c\<lparr>conn := u\<rparr>, Return (Err e))
      | (u, hb, None) \<Rightarrow>
          if length hb \<noteq> length (headerBuf c) then (c\<lparr>conn := u\<rparr>, Return (Err ErrShortBuffer))
          else
            (case half_Open P (read_half c) hb of
               Panic \<Rightarrow> (c\<lparr>conn := u\<rparr>, Return Panic)
             | Err e \<Rightarrow> (c\<lparr>conn := u\<rparr>, Return (Err (ErrBadHeader e)))
             | Ok header \<Rightarrow>
                 (let c1 = c\<lparr>conn := u, read_half := map_option incSeq (read_half c)\<rparr>
                  in case Uint32 header of
                       None \<Rightarrow> (c1, Return Panic)
                     | Some h \<Rightarrow>
                         (case Read_header h of
                            (cmd, cnt) \<Rightarrow>
                              if cmd = pData then
                                (case Read_data P len cnt c1 of (c2, r) \<Rightarrow> (c2, Return r))
                              else if cmd = pStartRekey then rekey_pass (readRekey P cnt c1)
                              else if cmd = pClientKeyUpdate then
                                rekey_pass (readServerRekeyed P cnt c1)
                              else if cmd = pFinalizeRekey then
                                rekey_pass (readClientRekeyFinal P cnt c1)
                              else (c1, Return (Err ErrProtocolError))))))"

subsection \<open>What a pass consumes\<close>

definition bytes_in :: "Conn \<Rightarrow> nat" where
  "bytes_in c = length (concat (inp (conn c)))"

lemma take_segs_concat:
  "take_segs n segs = (g, r, e) \<Longrightarrow>
     concat segs = g @ concat r \<and> length g \<le> n \<and> (\<not> e \<longrightarrow> length g = n)"
proof (induction n segs arbitrary: g r e rule: take_segs.induct)
  case (1 n)
  then show ?case by auto
next
  case (2 n s ss)
  show ?case
  proof (cases "n \<noteq> 0 \<and> length s \<le> n")
    case True
    obtain g' r' e' where t: "take_segs (n - length s) ss = (g', r', e')"
      by (cases "take_segs (n - length s) ss") auto
    from True have "n \<noteq> 0" "length s \<le> n" by simp_all
    from "2.IH" [OF this t] "2.prems" True t show ?thesis by auto
  next
    case False
    with "2.prems" show ?thesis by (auto split: if_splits)
  qed
qed

lemma ReadFull_ok:
  assumes "ReadFull n u = (u', g, None)"
  shows "length g = n" and "concat (inp u) = g @ concat (inp u')"
    and "u' = u\<lparr>inp := inp u'\<rparr>"
proof -
  obtain g0 r e where t: "take_segs n (inp u) = (g0, r, e)"
    by (cases "take_segs n (inp u)") auto
  with assms have "g0 = g" "u' = u\<lparr>inp := r\<rparr>" "\<not> e"
    by (auto simp add: ReadFull_def split: if_splits)
  with take_segs_concat [OF t]
  show "length g = n" and "concat (inp u) = g @ concat (inp u')"
    and "u' = u\<lparr>inp := inp u'\<rparr>"
    by auto
qed

lemma ReadFull_le:
  "ReadFull n u = (u', g, e) \<Longrightarrow> length (concat (inp u')) \<le> length (concat (inp u))"
proof -
  assume a: "ReadFull n u = (u', g, e)"
  obtain g0 r e0 where t: "take_segs n (inp u) = (g0, r, e0)"
    by (cases "take_segs n (inp u)") auto
  with a have "inp u' = r" by (auto simp add: ReadFull_def)
  with take_segs_concat [OF t] show ?thesis by simp
qed

lemma inp_conn_Write [simp]: "inp (fst (conn_Write p u)) = inp u"
  by (simp add: conn_Write_def split: option.splits)

lemma inp_Write_checked [simp]: "inp (fst (Write_checked ct u)) = inp u"
proof -
  obtain u' n e where w: "conn_Write ct u = (u', n, e)"
    by (cases "conn_Write ct u") auto
  then have "inp u' = inp u" using inp_conn_Write [of ct u] by simp
  with w show ?thesis by (simp add: Write_checked_def split: option.splits)
qed

lemma Write_checked_inp: "Write_checked ct u = (u', e) \<Longrightarrow> inp u' = inp u"
  using inp_Write_checked [of ct u] by simp

lemma write_Seal_Some:
  "write_Seal P pt c = Some (ct, c') \<Longrightarrow> c' = c\<lparr>write_half := map_option incSeq (write_half c)\<rparr>"
  by (auto simp add: write_Seal_def split: option.splits)

text \<open>\<^verbatim>\<open>sendBuffer\<close> touches the carrier's output side and the write half only.\<close>

lemma sendBuffer_frame:
  assumes "sendBuffer P cmd buf c = (c', r)"
  shows "\<exists>u w. c' = c\<lparr>conn := u, write_half := w\<rparr> \<and> inp u = inp (conn c)"
proof (cases "write_Seal P (PutUint32 (sendBuffer_header cmd (length buf))) c")
  case None
  with assms have "c' = c" by (simp add: sendBuffer_def)
  then have "c' = c\<lparr>conn := conn c, write_half := write_half c\<rparr>" by simp
  then show ?thesis by blast
next
  case (Some a)
  then obtain ct c1 where s1: "write_Seal P (PutUint32 (sendBuffer_header cmd (length buf))) c = Some (ct, c1)"
    by (cases a) auto
  note c1 = write_Seal_Some [OF s1]
  obtain u e where w1: "Write_checked ct (conn c1) = (u, e)"
    by (cases "Write_checked ct (conn c1)") auto
  have iu: "inp u = inp (conn c)"
    using Write_checked_inp [OF w1] c1 by simp
  show ?thesis
  proof (cases e)
    case (Some e')
    with assms s1 w1 have "c' = c1\<lparr>conn := u\<rparr>" by (simp add: sendBuffer_def)
    with c1 have "c' = c\<lparr>conn := u, write_half := map_option incSeq (write_half c)\<rparr>" by simp
    with iu show ?thesis by blast
  next
    case None
    show ?thesis
    proof (cases "write_Seal P buf (c1\<lparr>conn := u\<rparr>)")
      case n2: None
      with assms s1 w1 None have "c' = c1\<lparr>conn := u\<rparr>" by (simp add: sendBuffer_def)
      with c1 have "c' = c\<lparr>conn := u, write_half := map_option incSeq (write_half c)\<rparr>" by simp
      with iu show ?thesis by blast
    next
      case (Some a2)
      then obtain ct2 c3 where s2: "write_Seal P buf (c1\<lparr>conn := u\<rparr>) = Some (ct2, c3)"
        by (cases a2) auto
      note c3 = write_Seal_Some [OF s2]
      obtain u2 e2 where w2: "Write_checked ct2 (conn c3) = (u2, e2)"
        by (cases "Write_checked ct2 (conn c3)") auto
      have iu2: "inp u2 = inp (conn c)"
        using Write_checked_inp [OF w2] c3 iu by simp
      from assms s1 w1 None s2 w2 have "c' = c3\<lparr>conn := u2\<rparr>"
        by (cases e2) (simp_all add: sendBuffer_def)
      with c3 c1 have "c' = c\<lparr>conn := u2,
          write_half := map_option incSeq (map_option incSeq (write_half c))\<rparr>" by simp
      with iu2 show ?thesis by blast
    qed
  qed
qed

lemma bytes_in_sendBuffer [simp]: "bytes_in (fst (sendBuffer P cmd buf c)) = bytes_in c"
proof -
  obtain c' r where s: "sendBuffer P cmd buf c = (c', r)"
    by (cases "sendBuffer P cmd buf c") auto
  from sendBuffer_frame [OF s] s show ?thesis by (auto simp add: bytes_in_def)
qed

lemma bytes_in_setup_write: "setup_write k iv c = Some c' \<Longrightarrow> bytes_in c' = bytes_in c"
  by (auto simp add: setup_write_def bytes_in_def split: option.splits)

lemma bytes_in_setup_read: "setup_read k iv c = Some c' \<Longrightarrow> bytes_in c' = bytes_in c"
  by (auto simp add: setup_read_def bytes_in_def split: option.splits)

lemma bytes_in_commit_next [simp]: "bytes_in (commit_next c) = bytes_in c"
  by (simp add: commit_next_def bytes_in_def)

lemma bytes_in_derive_next [simp]: "bytes_in (fst (derive_next P c)) = bytes_in c"
  by (simp add: derive_next_def bytes_in_def Let_def split: option.splits res.splits)

lemma bytes_in_upd [simp]:
  "bytes_in (c\<lparr>rand_Reader := r\<rparr>) = bytes_in c"
  "bytes_in (c\<lparr>nextPubKey := a\<rparr>) = bytes_in c"
  "bytes_in (c\<lparr>nextPrivKey := a\<rparr>) = bytes_in c"
  "bytes_in (c\<lparr>nextPeerKey := a\<rparr>) = bytes_in c"
  "bytes_in (c\<lparr>nextIv := a\<rparr>) = bytes_in c"
  by (simp_all add: bytes_in_def)

lemma bytes_in_sendClientRekey [simp]: "bytes_in (fst (sendClientRekey P c)) = bytes_in c"
proof -
  have s: "sendBuffer P cmd buf x = (y, r) \<Longrightarrow> bytes_in y = bytes_in x" for cmd buf x y r
    using bytes_in_sendBuffer [of P cmd buf x] by simp
  have d: "derive_next P x = (y, r) \<Longrightarrow> bytes_in y = bytes_in x" for x y r
    using bytes_in_derive_next [of P x] by simp
  show ?thesis
    unfolding sendClientRekey_def
    by (auto split: prod.splits res.splits option.splits
          dest!: s d bytes_in_setup_write)
qed

lemma bytes_in_sendServerRekeyed [simp]: "bytes_in (fst (sendServerRekeyed P c)) = bytes_in c"
proof -
  have s: "sendBuffer P cmd buf x = (y, r) \<Longrightarrow> bytes_in y = bytes_in x" for cmd buf x y r
    using bytes_in_sendBuffer [of P cmd buf x] by simp
  show ?thesis
    unfolding sendServerRekeyed_def
    by (auto split: prod.splits res.splits option.splits
          dest!: s bytes_in_setup_write)
qed

lemma readAndCheck_consumes:
  assumes "readAndCheck P cnt c = (c', Ok buf)"
  shows "bytes_in c' < bytes_in c"
proof -
  from assms obtain u g where r: "ReadFull (unat cnt + Overhead) (conn c) = (u, g, None)"
    and c': "conn c' = u"
    by (auto simp add: readAndCheck_def half_Overhead_def Let_def
          split: option.splits prod.splits if_splits)
  from ReadFull_ok(1,2) [OF r] c' show ?thesis
    by (simp add: bytes_in_def Overhead_def)
qed

lemma readRekey_consumes:
  assumes "readRekey P cnt c = (c', Ok x)"
  shows "bytes_in c' < bytes_in c"
proof -
  from assms obtain c1 buf where a: "readAndCheck P cnt c = (c1, Ok buf)"
    and s: "sendClientRekey P (c1\<lparr>nextPeerKey := Some (take cKeySize buf),
                     nextIv := Some (drop cKeySize buf)\<rparr>) = (c', Ok x)"
    by (auto simp add: readRekey_def split: prod.splits res.splits if_splits)
  from s have "bytes_in c' = bytes_in c1"
    using bytes_in_sendClientRekey [of P "c1\<lparr>nextPeerKey := Some (take cKeySize buf),
                     nextIv := Some (drop cKeySize buf)\<rparr>"] by simp
  with readAndCheck_consumes [OF a] show ?thesis by simp
qed

lemma readServerRekeyed_consumes:
  assumes "readServerRekeyed P cnt c = (c', Ok x)"
  shows "bytes_in c' < bytes_in c"
proof -
  from assms obtain c1 buf c2 k c3 where a: "readAndCheck P cnt c = (c1, Ok buf)"
    and d: "derive_next P (c1\<lparr>nextPeerKey := Some (take cKeySize buf)\<rparr>) = (c2, Ok ())"
    and k: "setup_read k (iv_bytes (nextIv c2)) c2 = Some c3"
    and s: "sendServerRekeyed P c3 = (c', Ok x)"
    by (auto simp add: readServerRekeyed_def split: prod.splits res.splits if_splits option.splits)
  from d have "bytes_in c2 = bytes_in c1"
    using bytes_in_derive_next [of P "c1\<lparr>nextPeerKey := Some (take cKeySize buf)\<rparr>"] by simp
  moreover from s have "bytes_in c' = bytes_in c3"
    using bytes_in_sendServerRekeyed [of P c3] by simp
  ultimately show ?thesis
    using readAndCheck_consumes [OF a] bytes_in_setup_read [OF k] by simp
qed

lemma readClientRekeyFinal_consumes:
  assumes "readClientRekeyFinal P cnt c = (c', Ok x)"
  shows "bytes_in c' < bytes_in c"
proof -
  from assms obtain c1 buf k c2 where a: "readAndCheck P cnt c = (c1, Ok buf)"
    and k: "setup_read k (iv_bytes (nextIv c1)) c1 = Some c2"
    and s: "c' = commit_next c2"
    by (auto simp add: readClientRekeyFinal_def split: prod.splits res.splits if_splits option.splits)
  then show ?thesis
    using readAndCheck_consumes [OF a] bytes_in_setup_read [OF k] by simp
qed

lemma rekey_pass_Retry: "rekey_pass r = (c', Retry) \<Longrightarrow> \<exists>x. r = (c', Ok x)"
  by (auto simp add: rekey_pass_def split: prod.splits res.splits)

lemma Read_pass_consumes:
  assumes "Read_pass P len c = (c', Retry)"
  shows "bytes_in c' < bytes_in c"
proof -
  obtain u hb e where r: "ReadFull (length (headerBuf c)) (conn c) = (u, hb, e)"
    by (cases "ReadFull (length (headerBuf c)) (conn c)") auto
  define c1 where "c1 = c\<lparr>conn := u, read_half := map_option incSeq (read_half c)\<rparr>"
  have le: "bytes_in c1 \<le> bytes_in c"
    using ReadFull_le [OF r] by (simp add: c1_def bytes_in_def)
  from assms r obtain cnt where
    "rekey_pass (readRekey P cnt c1) = (c', Retry)
     \<or> rekey_pass (readServerRekeyed P cnt c1) = (c', Retry)
     \<or> rekey_pass (readClientRekeyFinal P cnt c1) = (c', Retry)"
    unfolding Read_pass_def c1_def Let_def
    by (auto split: option.splits if_splits res.splits prod.splits)
  then have "bytes_in c' < bytes_in c1"
    by (auto dest!: rekey_pass_Retry
          dest: readRekey_consumes readServerRekeyed_consumes readClientRekeyFinal_consumes)
  with le show ?thesis by simp
qed

subsection \<open>Read\<close>

function Read_loop :: "prims \<Rightarrow> nat \<Rightarrow> Conn \<Rightarrow> Conn \<times> bytes res" where
  "Read_loop P len c =
     (case Read_pass P len c of
        (c', Retry) \<Rightarrow> Read_loop P len c'
      | (c', Return r) \<Rightarrow> (c', r))"
  by pat_completeness auto
termination
  by (relation "measure (\<lambda>(P, len, c). bytes_in c)") (auto dest: Read_pass_consumes [OF sym])

declare Read_loop.simps [simp del]

text \<open>\<^verbatim>\<open>Read(buf)\<close> with \<open>len = len(buf)\<close>: the bytes copied into \<^verbatim>\<open>buf\<close>.\<close>

definition Read :: "prims \<Rightarrow> nat \<Rightarrow> Conn \<Rightarrow> Conn \<times> bytes res" where
  "Read P len c =
     (case Buffer_Read len (readBuf c) of
        (b, got, e) \<Rightarrow>
          if length got > 0 then (c\<lparr>readBuf := b\<rparr>, Ok got)
          else Read_loop P len (c\<lparr>readBuf := b\<rparr>))"

subsection \<open>Write\<close>

text \<open>The loop \<^verbatim>\<open>for len(buf) > 0\<close> of \<^verbatim>\<open>Write\<close>. With an empty write buffer the chunk is
  empty and the loop never ends: not returning is the value \<open>None\<close>.\<close>

partial_function (option) Write_loop :: "prims \<Rightarrow> bytes \<Rightarrow> Conn \<Rightarrow> (Conn \<times> unit res) option" where
  "Write_loop P buf c =
     (if length buf > 0 then
        (let chunk = (if length (writeBuf c) \<ge> length buf then buf
                      else take (length (writeBuf c)) buf);
             buf' = (if length (writeBuf c) \<ge> length buf then []
                     else drop (length (writeBuf c)) buf);
             header = PutUint32 (Write_header (length chunk))
         in case write_Seal P header c of
              None \<Rightarrow> Some (c, Panic)
            | Some (ct, c1) \<Rightarrow>
                (case Write_checked ct (conn c1) of
                   (u, Some e) \<Rightarrow> Some (c1\<lparr>conn := u\<rparr>, Err e)
                 | (u, None) \<Rightarrow>
                     (case write_Seal P chunk (c1\<lparr>conn := u\<rparr>) of
                        None \<Rightarrow> Some (c1\<lparr>conn := u\<rparr>, Panic)
                      | Some (ct', c3) \<Rightarrow>
                          (case Write_checked ct' (conn c3) of
                             (u', Some e) \<Rightarrow> Some (c3\<lparr>conn := u'\<rparr>, Err e)
                           | (u', None) \<Rightarrow> Write_loop P buf' (c3\<lparr>conn := u'\<rparr>)))))
      else Some (c, Ok ()))"

declare Write_loop.simps [code]

text \<open>\<^verbatim>\<open>Write(buf)\<close>: the count returned.\<close>

definition Write :: "prims \<Rightarrow> tunables \<Rightarrow> bytes \<Rightarrow> Conn \<Rightarrow> (Conn \<times> nat res) option" where
  "Write P G buf c =
     (case (if server c \<and> nextPeerKey c = None then
              (if sint (rekeyLeft c) \<le> 0 \<or> now c > rekeyAfter c then startRekey P G c
               else (c\<lparr>rekeyLeft := rekeyLeft c - word_of_nat (length buf)\<rparr>, Ok ()))
            else (c, Ok ())) of
        (c1, Err e) \<Rightarrow> Some (c1, Err e)
      | (c1, Panic) \<Rightarrow> Some (c1, Panic)
      | (c1, Ok _) \<Rightarrow>
          (case Write_loop P buf c1 of
             None \<Rightarrow> None
           | Some (c2, Err e) \<Rightarrow> Some (c2, Err e)
           | Some (c2, Panic) \<Rightarrow> Some (c2, Panic)
           | Some (c2, Ok _) \<Rightarrow> Some (c2, Ok (length buf))))"

section \<open>An instance to run the model on\<close>

text \<open>
  Stand-ins for the primitives, simple enough to evaluate: sealing appends a 16-byte tag
  made of the nonce and the head of the key, opening checks and removes it; the group
  operation is bytewise exclusive or on a base point of zeros (so both sides of an
  exchange get the same secret); the key stream is the secret followed by the salt.
\<close>

definition ex_tag :: "bytes \<Rightarrow> bytes \<Rightarrow> bytes" where
  "ex_tag key nonce = take 16 (nonce @ key @ replicate 16 0)"

definition ex_Seal :: "bytes \<Rightarrow> bytes \<Rightarrow> bytes \<Rightarrow> bytes" where
  "ex_Seal key nonce pt = pt @ ex_tag key nonce"

definition ex_Open :: "bytes \<Rightarrow> bytes \<Rightarrow> bytes \<Rightarrow> bytes option" where
  "ex_Open key nonce ct =
     (if 16 \<le> length ct \<and> drop (length ct - 16) ct = ex_tag key nonce
      then Some (take (length ct - 16) ct) else None)"

definition ex_mult :: "bytes \<Rightarrow> bytes \<Rightarrow> bytes" where
  "ex_mult a b = map (\<lambda>(x, y). x XOR y) (zip a b)"

definition ex_base :: "bytes \<Rightarrow> bytes" where
  "ex_base a = a"

definition ex_hkdf :: "bytes \<Rightarrow> bytes \<Rightarrow> bytes \<Rightarrow> bytes" where
  "ex_hkdf secret salt info = secret @ salt"

definition ex_hmac :: "bytes \<Rightarrow> bytes \<Rightarrow> bytes" where
  "ex_hmac key msg = key @ msg"

definition ex :: prims where
  "ex = \<lparr>aead_Seal = ex_Seal, aead_Open = ex_Open, ScalarBaseMult = ex_base,
         ScalarMult = ex_mult, hkdf = ex_hkdf, hmac_sha256 = ex_hmac\<rparr>"

text \<open>The default tunables; a carrier with the given input and no limit on output.\<close>

definition G0 :: tunables where
  "G0 = \<lparr>WriteBufferSize = 128, RekeyAfterBytes = 104857600,
         KeyValidityPeriod = 3600000000000\<rparr>"

definition wire :: "bytes list \<Rightarrow> carrier" where
  "wire segs = \<lparr>inp = segs, inp_err = EOF, out = [], out_room = None, out_err = None\<rparr>"

text \<open>The random bytes the two endpoints draw: a private key each, and the client's salt.\<close>

definition rnd_c :: bytes where "rnd_c = replicate 16 1 @ replicate 16 2 @ replicate 16 7"
definition rnd_s :: bytes where "rnd_s = replicate 16 4 @ replicate 16 8"

text \<open>The two endpoints after the handshake over a carrier that delivers everything.\<close>

definition cli0 :: Conn where
  "cli0 =
     \<lparr>conn = \<lparr>inp = [], inp_err = EOF,
              out = PutUint32 32 @ replicate 16 1 @ replicate 16 2 @ PutUint32 16 @ replicate 16 7,
              out_room = None, out_err = None\<rparr>,
      privKey = Some (replicate 16 1 @ replicate 16 2),
      pubKey = Some (replicate 16 1 @ replicate 16 2),
      peerKey = Some (replicate 16 4 @ replicate 16 8),
      shared = Some (replicate 16 5 @ replicate 16 10), server = False,
      writeBuf = replicate 128 0, readBuf = [],
      rekeyAfter = 3600000000000, rekeyLeft = 104857600,
      read_half = Some \<lparr>aead = Some (replicate 16 5), seq = replicate 12 0\<rparr>,
      write_half = Some \<lparr>aead = Some (replicate 16 10), seq = replicate 12 0\<rparr>,
      nextPubKey = None, nextPrivKey = None, nextPeerKey = None,
      nextShared = None, nextKeys = None, nextIv = None,
      headerBuf = replicate 20 0, rand_Reader = [], now = 0\<rparr>"

definition srv0 :: Conn where
  "srv0 =
     \<lparr>conn = \<lparr>inp = [], inp_err = EOF,
              out = PutUint32 32 @ replicate 16 4 @ replicate 16 8,
              out_room = None, out_err = None\<rparr>,
      privKey = Some (replicate 16 4 @ replicate 16 8),
      pubKey = Some (replicate 16 4 @ replicate 16 8),
      peerKey = Some (replicate 16 1 @ replicate 16 2),
      shared = Some (replicate 16 5 @ replicate 16 10), server = True,
      writeBuf = replicate 128 0, readBuf = [],
      rekeyAfter = 3600000000000, rekeyLeft = 104857600,
      read_half = Some \<lparr>aead = Some (replicate 16 10), seq = replicate 12 0\<rparr>,
      write_half = Some \<lparr>aead = Some (replicate 16 5), seq = replicate 12 0\<rparr>,
      nextPubKey = None, nextPrivKey = None, nextPeerKey = None,
      nextShared = None, nextKeys = None, nextIv = None,
      headerBuf = replicate 20 0, rand_Reader = [], now = 0\<rparr>"

lemma ex_simps [simp]:
  "aead_Seal ex = ex_Seal" "aead_Open ex = ex_Open" "ScalarBaseMult ex = ex_base"
  "ScalarMult ex = ex_mult" "hkdf ex = ex_hkdf" "hmac_sha256 ex = ex_hmac"
  by (simp_all add: ex_def)

lemmas ex_defs = ex_tag_def ex_Seal_def ex_Open_def ex_mult_def ex_base_def ex_hkdf_def
  ex_hmac_def G0_def wire_def rnd_c_def rnd_s_def

lemmas Negotiate_defs = Negotiate_def Negotiate_iv_def Negotiate_keys_def NewConn_def
  GenerateKey_def rand_ReadFull_def arr32_def binary_Write_def binary_Read_def
  conn_Write_def conn_Read_def Write_checked_def ReadFull_def makeKeys_def BlockSize_def
  setup_read_def setup_write_def half_setup_def half_Overhead_def Overhead_def
  NonceSize_def PutUint32_def Uint32_def Let_def

lemma Negotiate_client_ex:
  "Negotiate ex G0 False (NewConn G0 (wire [PutUint32 32, take 32 rnd_s]) rnd_c 0) = (cli0, Ok ())"
  by (simp add: ex_defs Negotiate_defs cli0_def)

lemma Negotiate_server_ex:
  "Negotiate ex G0 True
     (NewConn G0 (wire [PutUint32 32, take 32 rnd_c, PutUint32 16, drop 32 rnd_c]) rnd_s 0)
   = (srv0, Ok ())"
  by (simp add: ex_defs Negotiate_defs srv0_def)

section \<open>The handshake\<close>

lemma makeKeys_Ok:
  "makeKeys P sh iv info = Ok ks \<Longrightarrow>
     ks = [take 16 (hkdf P sh iv info), take 16 (drop 16 (hkdf P sh iv info))]
     \<and> 32 \<le> length (hkdf P sh iv info)"
  by (auto simp add: makeKeys_def BlockSize_def Let_def split: if_splits)

lemma makeKeys_not_Err [simp]: "makeKeys P sh iv info \<noteq> Err e"
  by (simp add: makeKeys_def Let_def)

lemma Negotiate_keys_Ok:
  assumes "Negotiate_keys P G iv c = (c', Ok ())"
  shows "\<exists>sh. shared c = Some sh \<and> shared c' = Some sh
     \<and> 32 \<le> length (hkdf P sh iv [])
     \<and> read_half c' =
          Some \<lparr>aead = Some (if server c then take 16 (drop 16 (hkdf P sh iv []))
                              else take 16 (hkdf P sh iv [])),
                seq = replicate 12 0\<rparr>
     \<and> write_half c' =
          Some \<lparr>aead = Some (if server c then take 16 (hkdf P sh iv [])
                              else take 16 (drop 16 (hkdf P sh iv []))),
                seq = replicate 12 0\<rparr>
     \<and> server c' = server c \<and> length (headerBuf c') = 20
     \<and> rekeyLeft c' = RekeyAfterBytes G \<and> writeBuf c' = writeBuf c
     \<and> readBuf c' = readBuf c \<and> pubKey c' = pubKey c \<and> peerKey c' = peerKey c
     \<and> conn c' = conn c"
proof -
  from assms obtain sh where sh: "shared c = Some sh"
    by (cases "shared c") (auto simp add: Negotiate_keys_def Let_def)
  from assms sh obtain ks where ks: "makeKeys P sh iv [] = Ok ks"
    by (cases "makeKeys P sh iv []") (auto simp add: Negotiate_keys_def Let_def)
  note k = makeKeys_Ok [OF ks]
  from k have l: "length (ks ! 0) = 16" "length (ks ! 1) = 16" by auto
  from assms sh ks l k show ?thesis
    by (auto simp add: Negotiate_keys_def Let_def setup_read_def setup_write_def
          half_setup_def half_Overhead_def Overhead_def NonceSize_def)
qed

lemma Negotiate_iv_frame:
  assumes "Negotiate_iv srv c = (c', r)"
  shows "\<exists>u rnd. c' = c\<lparr>conn := u, rand_Reader := rnd\<rparr>"
proof -
  have e: "c\<lparr>conn := u\<rparr> = c\<lparr>conn := u, rand_Reader := rand_Reader c\<rparr>" for u by simp
  have e2: "c\<lparr>rand_Reader := rnd\<rparr> = c\<lparr>conn := conn c, rand_Reader := rnd\<rparr>" for rnd by simp
  have e3: "c\<lparr>rand_Reader := rnd, conn := u\<rparr> = c\<lparr>conn := u, rand_Reader := rnd\<rparr>" for u rnd by simp
  from assms show ?thesis
    unfolding Negotiate_iv_def
    by (auto split: if_splits prod.splits res.splits option.splits intro: e e2 e3)
qed

lemma Negotiate_iv_client:
  "Negotiate_iv False c = (c', Ok iv) \<Longrightarrow> iv = take 16 (rand_Reader c)"
  by (auto simp add: Negotiate_iv_def rand_ReadFull_def BlockSize_def
        split: if_splits prod.splits option.splits)

text \<open>The two subkeys in the words of the specification: the first 16 bytes of the HKDF
  output for (shared secret, salt) with empty info, and the next 16.\<close>

definition K0 :: "prims \<Rightarrow> bytes \<Rightarrow> bytes \<Rightarrow> bytes" where
  "K0 P sh iv = take 16 (hkdf P sh iv [])"

definition K1 :: "prims \<Rightarrow> bytes \<Rightarrow> bytes \<Rightarrow> bytes" where
  "K1 P sh iv = take 16 (drop 16 (hkdf P sh iv []))"

lemma conn_Read_concat:
  "conn_Read n u = (u', g, e) \<Longrightarrow> concat (inp u) = g @ concat (inp u')"
  by (auto simp add: conn_Read_def split: if_splits list.splits)

lemma ReadFull_concat:
  assumes "ReadFull n u = (u', g, e)"
  shows "concat (inp u) = g @ concat (inp u')"
proof -
  obtain g0 r e0 where t: "take_segs n (inp u) = (g0, r, e0)"
    by (cases "take_segs n (inp u)") auto
  with assms have "g0 = g" "inp u' = r" by (auto simp add: ReadFull_def)
  with take_segs_concat [OF t] show ?thesis by simp
qed

lemma binary_Read_Ok:
  assumes "binary_Read u = (u', Ok v)"
  shows "\<exists>b. concat (inp u) = b @ concat (inp u') \<and> length b = 4 \<and> Uint32 b = Some v"
proof -
  from assms obtain b where r: "ReadFull 4 u = (u', b, None)" and v: "Uint32 b = Some v"
    by (auto simp add: binary_Read_def split: prod.splits option.splits)
  from ReadFull_ok(1,2) [OF r] v show ?thesis by blast
qed

lemma conn_Write_inp: "conn_Write p u = (u', n, e) \<Longrightarrow> inp u' = inp u"
  by (auto simp add: conn_Write_def split: option.splits if_splits)

lemma binary_Write_inp: "binary_Write v u = (u', e) \<Longrightarrow> inp u' = inp u"
  by (auto simp add: binary_Write_def split: prod.splits dest: conn_Write_inp)

lemma Negotiate_iv_server:
  assumes "Negotiate_iv True c = (c', Ok iv)"
  shows "\<exists>b. concat (inp (conn c)) = b @ iv @ concat (inp (conn c'))
           \<and> length b = 4 \<and> Uint32 b = Some (word_of_nat (length iv))"
proof -
  from assms obtain u other where b: "binary_Read (conn c) = (u, Ok other)"
    and r: "ReadFull (unat other) u = (conn c', iv, None)"
    by (auto simp add: Negotiate_iv_def split: prod.splits res.splits option.splits if_splits)
  from binary_Read_Ok [OF b] obtain bs where bs: "concat (inp (conn c)) = bs @ concat (inp u)"
    "length bs = 4" "Uint32 bs = Some other"
    by blast
  from ReadFull_ok(1,2) [OF r] have "length iv = unat other" "concat (inp u) = iv @ concat (inp (conn c'))"
    by simp_all
  with bs show ?thesis by auto
qed

lemma Negotiate_Ok:
  assumes "Negotiate P G srv c = (c', Ok ())"
  shows "\<exists>priv pk c3 c4 iv a.
      priv = take 32 (rand_Reader c) \<and> 32 \<le> length (rand_Reader c)
    \<and> concat (inp (conn c)) = a @ pk @ concat (inp (conn c3)) \<and> length a = 4 \<and> length pk = 32
    \<and> c3 = c\<lparr>rand_Reader := drop 32 (rand_Reader c),
               pubKey := Some (arr32 (ScalarBaseMult P priv)), privKey := Some priv,
               server := srv, conn := conn c3, peerKey := Some pk,
               shared := Some (arr32 (ScalarMult P priv pk))\<rparr>
    \<and> Negotiate_iv srv c3 = (c4, Ok iv)
    \<and> Negotiate_keys P G iv c4 = (c', Ok ())"
proof -
  from assms obtain rnd pub priv where g: "GenerateKey P (rand_Reader c) = (rnd, Ok (pub, priv))"
    by (auto simp add: Negotiate_def split: prod.splits res.splits)
  then have g': "priv = take 32 (rand_Reader c)" "32 \<le> length (rand_Reader c)"
    "rnd = drop 32 (rand_Reader c)" "pub = arr32 (ScalarBaseMult P priv)"
    by (auto simp add: GenerateKey_def rand_ReadFull_def split: if_splits)
  define c1 where "c1 = c\<lparr>rand_Reader := rnd, pubKey := Some pub, privKey := Some priv, server := srv\<rparr>"
  from assms g obtain u1 u2 u3 other u4 pk c4 iv where
        w1: "binary_Write 32 (conn c1) = (u1, None)"
    and w2: "Write_checked pub u1 = (u2, None)"
    and r1: "binary_Read u2 = (u3, Ok other)"
    and r2: "conn_Read 32 u3 = (u4, pk, None)"
    and l: "length pk = 32"
    and iv: "Negotiate_iv srv (c1\<lparr>conn := u4, peerKey := Some (arr32 pk),
                shared := Some (arr32 (ScalarMult P priv (arr32 pk)))\<rparr>) = (c4, Ok iv)"
    and k: "Negotiate_keys P G iv c4 = (c', Ok ())"
    unfolding Negotiate_def c1_def Let_def
    by (auto split: prod.splits res.splits option.splits if_splits)
  from l have a32: "arr32 pk = pk" by (simp add: arr32_def)
  have i1: "inp u2 = inp (conn c)"
    using binary_Write_inp [OF w1] Write_checked_inp [OF w2] by (simp add: c1_def)
  from binary_Read_Ok [OF r1] i1 obtain a where a: "concat (inp (conn c)) = a @ concat (inp u3)" "length a = 4"
    by auto
  from conn_Read_concat [OF r2] a have cc: "concat (inp (conn c)) = a @ pk @ concat (inp u4)"
    by simp
  define c3 where "c3 = c1\<lparr>conn := u4, peerKey := Some (arr32 pk),
                shared := Some (arr32 (ScalarMult P priv (arr32 pk)))\<rparr>"
  have "c3 = c\<lparr>rand_Reader := drop 32 (rand_Reader c),
               pubKey := Some (arr32 (ScalarBaseMult P priv)), privKey := Some priv,
               server := srv, conn := conn c3, peerKey := Some pk,
               shared := Some (arr32 (ScalarMult P priv pk))\<rparr>"
    by (simp add: c3_def c1_def g' a32)
  moreover have "concat (inp (conn c)) = a @ pk @ concat (inp (conn c3))"
    using cc by (simp add: c3_def)
  moreover have "Negotiate_iv srv c3 = (c4, Ok iv)" using iv by (simp add: c3_def)
  ultimately show ?thesis using g' a(2) l k by blast
qed

text \<open>
  Claim C2, as the code has it. When \<open>Negotiate\<close> succeeds, the connection holds a shared
  secret \<open>sh\<close>, there is a salt \<open>iv\<close> (for the client the 16 random bytes drawn after
  the private key; for the server the bytes that arrived after the 40 bytes of the key
  exchange and the length word, as many as that word says), the HKDF output for them
  is at least 32 bytes long, and both nonces are twelve zero bytes. The roles are the
  reverse of the claim's: the server reads with \<open>K1\<close> and writes with \<open>K0\<close>, the client
  reads with \<open>K0\<close> and writes with \<open>K1\<close>.
\<close>

theorem Negotiate_role_keys:
  assumes "Negotiate P G srv c = (c', Ok ())"
  shows "\<exists>sh iv. shared c' = Some sh \<and> 32 \<le> length (hkdf P sh iv [])
     \<and> (if srv
         then (\<exists>pre. concat (inp (conn c)) = pre @ iv @ concat (inp (conn c'))
                 \<and> length pre = 40
                 \<and> Uint32 (drop 36 pre) = Some (word_of_nat (length iv)))
         else iv = take 16 (drop 32 (rand_Reader c)))
     \<and> read_half c' =
          Some \<lparr>aead = Some (if srv then K1 P sh iv else K0 P sh iv), seq = replicate 12 0\<rparr>
     \<and> write_half c' =
          Some \<lparr>aead = Some (if srv then K0 P sh iv else K1 P sh iv), seq = replicate 12 0\<rparr>"
proof -
  from Negotiate_Ok [OF assms] obtain priv pk c3 c4 iv a where
        cc: "concat (inp (conn c)) = a @ pk @ concat (inp (conn c3))"
    and la: "length a = 4" and lpk: "length pk = 32"
    and c3: "c3 = c\<lparr>rand_Reader := drop 32 (rand_Reader c),
               pubKey := Some (arr32 (ScalarBaseMult P priv)), privKey := Some priv,
               server := srv, conn := conn c3, peerKey := Some pk,
               shared := Some (arr32 (ScalarMult P priv pk))\<rparr>"
    and iv: "Negotiate_iv srv c3 = (c4, Ok iv)"
    and k: "Negotiate_keys P G iv c4 = (c', Ok ())"
    by blast
  from Negotiate_iv_frame [OF iv] obtain u rnd where c4: "c4 = c3\<lparr>conn := u, rand_Reader := rnd\<rparr>"
    by blast
  have s3: "server c3 = srv" by (subst c3) simp
  have r3: "rand_Reader c3 = drop 32 (rand_Reader c)" by (subst c3) simp
  from Negotiate_keys_Ok [OF k] obtain sh where sh: "shared c' = Some sh"
    and len: "32 \<le> length (hkdf P sh iv [])"
    and rh: "read_half c' =
          Some \<lparr>aead = Some (if server c4 then take 16 (drop 16 (hkdf P sh iv []))
                              else take 16 (hkdf P sh iv [])),
                seq = replicate 12 0\<rparr>"
    and wh: "write_half c' =
          Some \<lparr>aead = Some (if server c4 then take 16 (hkdf P sh iv [])
                              else take 16 (drop 16 (hkdf P sh iv []))),
                seq = replicate 12 0\<rparr>"
    and cn: "conn c' = conn c4"
    by blast
  have s4: "server c4 = srv" using c4 s3 by simp
  have origin: "if srv
         then (\<exists>pre. concat (inp (conn c)) = pre @ iv @ concat (inp (conn c'))
                 \<and> length pre = 40
                 \<and> Uint32 (drop 36 pre) = Some (word_of_nat (length iv)))
         else iv = take 16 (drop 32 (rand_Reader c))"
  proof (cases srv)
    case True
    with iv have "Negotiate_iv True c3 = (c4, Ok iv)" by simp
    from Negotiate_iv_server [OF this] obtain b where
      b: "concat (inp (conn c3)) = b @ iv @ concat (inp (conn c4))" "length b = 4"
         "Uint32 b = Some (word_of_nat (length iv))"
      by blast
    have "concat (inp (conn c)) = (a @ pk @ b) @ iv @ concat (inp (conn c'))"
      using cc b(1) cn by simp
    moreover have "length (a @ pk @ b) = 40" using la lpk b(2) by simp
    moreover have "drop 36 (a @ pk @ b) = b" using la lpk by simp
    ultimately show ?thesis using True b(3) by metis
  next
    case False
    with iv have "Negotiate_iv False c3 = (c4, Ok iv)" by simp
    from Negotiate_iv_client [OF this] r3 False show ?thesis by simp
  qed
  from sh len origin rh wh s4 show ?thesis
    unfolding K0_def K1_def by (intro exI [of _ sh] exI [of _ iv]) simp
qed

theorem Negotiate_role_keys_witness:
  "read_half cli0 =
     Some \<lparr>aead = Some (K0 ex (replicate 16 5 @ replicate 16 10) (replicate 16 7)),
           seq = replicate 12 0\<rparr>
   \<and> write_half cli0 =
     Some \<lparr>aead = Some (K1 ex (replicate 16 5 @ replicate 16 10) (replicate 16 7)),
           seq = replicate 12 0\<rparr>"
  using Negotiate_role_keys [OF Negotiate_client_ex]
  by (auto simp add: cli0_def rnd_c_def NewConn_def)

text \<open>
  The claim fails at the handshake of the example: the client's write key is \<open>K1\<close>, which
  differs from \<open>K0\<close>, and its read key is \<open>K0\<close>.
\<close>

theorem client_write_key_counterexample:
  "Negotiate ex G0 False (NewConn G0 (wire [PutUint32 32, take 32 rnd_s]) rnd_c 0) = (cli0, Ok ())
   \<and> shared cli0 = Some (replicate 16 5 @ replicate 16 10)
   \<and> write_half cli0 \<noteq>
       Some \<lparr>aead = Some (K0 ex (replicate 16 5 @ replicate 16 10) (drop 32 rnd_c)),
             seq = replicate 12 0\<rparr>
   \<and> read_half cli0 \<noteq>
       Some \<lparr>aead = Some (K1 ex (replicate 16 5 @ replicate 16 10) (drop 32 rnd_c)),
             seq = replicate 12 0\<rparr>"
  using Negotiate_client_ex
  by (simp add: cli0_def K0_def K1_def ex_hkdf_def rnd_c_def)

section \<open>The constructors\<close>

lemma Negotiate_keys_not_Err: "Negotiate_keys P G iv c \<noteq> (c', Err e)"
  by (auto simp add: Negotiate_keys_def Let_def split: option.splits res.splits)

text \<open>Every error return of \<open>Negotiate\<close> comes before the halves are allocated.\<close>

lemma Negotiate_Err_halves:
  assumes "Negotiate P G srv c = (c', Err e)"
  shows "read_half c' = read_half c \<and> write_half c' = write_half c
     \<and> headerBuf c' = headerBuf c \<and> readBuf c' = readBuf c"
proof -
  have iv: "read_half x' = read_half x \<and> write_half x' = write_half x
      \<and> headerBuf x' = headerBuf x \<and> readBuf x' = readBuf x"
    if "Negotiate_iv srv x = (x', r)" for x x' r
    using Negotiate_iv_frame [OF that] by auto
  from assms show ?thesis
    unfolding Negotiate_def Let_def
    by (auto split: prod.splits res.splits option.splits if_splits
          simp add: Negotiate_keys_not_Err dest!: iv)
qed

text \<open>
  Claim C10. Whenever \<open>Negotiate\<close> returns an error on the fresh connection, for whatever
  reason, \<open>NewClient\<close> (and \<open>NewServer\<close>) returns normally with that connection, in the
  state in which the failed handshake left it, and a nil error. The connection it hands
  out is only partly set up: both halves are still nil.
\<close>

theorem constructors_drop_Negotiate_error:
  "(Negotiate P G False (NewConn G u rnd t) = (c, Err e)
      \<longrightarrow> NewClient P G u rnd t = Ok (Some c, None)
          \<and> read_half c = None \<and> write_half c = None)
   \<and> (Negotiate P G True (NewConn G u rnd t) = (c, Err e)
      \<longrightarrow> NewServer P G u rnd t = Ok (Some c, None)
          \<and> read_half c = None \<and> write_half c = None)"
proof -
  have "read_half c = None \<and> write_half c = None"
    if "Negotiate P G srv (NewConn G u rnd t) = (c, Err e)" for srv
    using Negotiate_Err_halves [OF that] by (simp add: NewConn_def)
  then show ?thesis by (auto simp add: NewClient_def NewServer_def)
qed

text \<open>The peer closes the carrier at once: the handshake fails with \<open>EOF\<close> while reading
  the peer's key, the connection has no shared secret and no halves.\<close>

definition cli_failed :: Conn where
  "cli_failed =
     (NewConn G0 (wire []) rnd_c 0)
       \<lparr>conn := (wire [])\<lparr>out := PutUint32 32 @ take 32 rnd_c\<rparr>,
        privKey := Some (take 32 rnd_c), pubKey := Some (take 32 rnd_c),
        rand_Reader := drop 32 rnd_c\<rparr>"

theorem constructors_drop_Negotiate_error_witness:
  "Negotiate ex G0 False (NewConn G0 (wire []) rnd_c 0) = (cli_failed, Err EOF)
   \<and> NewClient ex G0 (wire []) rnd_c 0 = Ok (Some cli_failed, None)
   \<and> shared cli_failed = None \<and> read_half cli_failed = None"
proof -
  have h: "Negotiate ex G0 False (NewConn G0 (wire []) rnd_c 0) = (cli_failed, Err EOF)"
    by (simp add: ex_defs Negotiate_defs cli_failed_def)
  from constructors_drop_Negotiate_error [of ex G0 "wire []" rnd_c 0 cli_failed EOF] h
  have "NewClient ex G0 (wire []) rnd_c 0 = Ok (Some cli_failed, None)" by blast
  with h show ?thesis by (simp add: cli_failed_def NewConn_def)
qed

section \<open>Auth tokens\<close>

text \<open>
  Claim C9. \<open>AuthToken\<close> is the HMAC keyed by the shared secret over the endpoint's own
  public key, \<open>PeerAuthToken\<close> the one over the peer's public key. When two endpoints
  hold the same shared secret and each other's public keys, each one's token equals
  the other's peer token.
\<close>

theorem auth_token_symmetry:
  assumes "shared cl = Some s" and "shared sv = Some s"
    and "pubKey cl = Some pc" and "peerKey sv = Some pc"
    and "pubKey sv = Some ps" and "peerKey cl = Some ps"
  shows "AuthToken P cl = Some (hmac_sha256 P s pc)
     \<and> PeerAuthToken P cl = Some (hmac_sha256 P s ps)
     \<and> AuthToken P sv = Some (hmac_sha256 P s ps)
     \<and> PeerAuthToken P sv = Some (hmac_sha256 P s pc)
     \<and> AuthToken P cl = PeerAuthToken P sv
     \<and> AuthToken P sv = PeerAuthToken P cl"
  using assms by (simp add: AuthToken_def PeerAuthToken_def)

theorem auth_token_symmetry_witness:
  "AuthToken ex cli0 = PeerAuthToken ex srv0 \<and> AuthToken ex srv0 = PeerAuthToken ex cli0
   \<and> AuthToken ex cli0 =
       Some (ex_hmac (replicate 16 5 @ replicate 16 10) (replicate 16 1 @ replicate 16 2))"
proof -
  have "shared cli0 = Some (replicate 16 5 @ replicate 16 10)"
    and "shared srv0 = Some (replicate 16 5 @ replicate 16 10)"
    and "pubKey cli0 = Some (replicate 16 1 @ replicate 16 2)"
    and "peerKey srv0 = Some (replicate 16 1 @ replicate 16 2)"
    and "pubKey srv0 = Some (replicate 16 4 @ replicate 16 8)"
    and "peerKey cli0 = Some (replicate 16 4 @ replicate 16 8)"
    by (simp_all add: cli0_def srv0_def)
  from auth_token_symmetry [OF this, of ex] show ?thesis by simp
qed

section \<open>Reading: what happens when the payload does not arrive or does not verify\<close>

lemma Read_loop_Return: "Read_pass P len c = (c', Return r) \<Longrightarrow> Read_loop P len c = (c', r)"
  by (subst Read_loop.simps) simp

lemma Read_loop_Retry:
  "Read_pass P len c = (c', Retry) \<Longrightarrow> Read_loop P len c = Read_loop P len c'"
  by (subst Read_loop.simps) simp

lemma replicate_num: "replicate (numeral k) x = x # replicate (pred_numeral k) x"
  by (simp add: numeral_eq_Suc)

lemmas Read_defs = replicate_num Read_pass_def Read_data_def Open_failed_def Buffer_Read_def
  CopyN_def ReadFull_def half_Open_def half_Overhead_def Overhead_def NonceSize_def
  Uint32_def Read_header_def pData_def pStartRekey_def pClientKeyUpdate_def
  pFinalizeRekey_def incSeq_def incSeq_loop_0 Let_def

text \<open>
  The client of the example receives the record that the server's \<open>Write\<close> makes of the
  bytes 1, 2, 3 (a sealed header for command 0 and length 3, then the sealed payload),
  with the last byte of the payload's tag changed from 5 to 4.
\<close>

definition tampered_record :: "bytes list" where
  "tampered_record =
     [[0, 0, 3, 0] @ replicate 12 0 @ replicate 4 5,
      [1, 2, 3] @ [1] @ replicate 11 0 @ [5, 5, 5, 4]]"

definition cli_tampered :: Conn where
  "cli_tampered = cli0\<lparr>conn := (conn cli0)\<lparr>inp := tampered_record\<rparr>\<rparr>"

definition cli_after_bad_mac :: Conn where
  "cli_after_bad_mac =
     cli0\<lparr>conn := (conn cli0)\<lparr>inp := []\<rparr>,
          read_half := Some \<lparr>aead = Some (replicate 16 5), seq = 1 # replicate 11 0\<rparr>,
          readBuf := [0, 0, 0] @ [1] @ replicate 11 0 @ [5, 5, 5, 4]\<rparr>"

lemma Read_pass_tampered:
  "Read_pass ex 10 cli_tampered = (cli_after_bad_mac, Return (Err ErrOpen))"
  by (simp add: Read_defs ex_defs cli0_def tampered_record_def cli_tampered_def
        cli_after_bad_mac_def)

text \<open>
  Claim C3 at this input. \<open>Read\<close> fails with the error of \<open>Open\<close>, and the buffer is not
  empty afterwards: it holds 19 bytes, the three of the payload cleared by \<open>Open\<close> and the
  sixteen of the rejected tag as they came from the carrier. The next \<open>Read\<close> returns
  ten of them with no error, bytes that no tag has vouched for.
\<close>

theorem Read_bad_mac_keeps_buffer:
  "Read ex 10 cli_tampered = (cli_after_bad_mac, Err ErrOpen)
   \<and> length (readBuf cli_after_bad_mac) = 19
   \<and> readBuf cli_after_bad_mac = [0, 0, 0] @ [1] @ replicate 11 0 @ [5, 5, 5, 4]
   \<and> snd (Read ex 10 cli_after_bad_mac) = Ok [0, 0, 0, 1, 0, 0, 0, 0, 0, 0]"
proof -
  have "Read ex 10 cli_tampered = (cli_after_bad_mac, Err ErrOpen)"
    using Read_loop_Return [OF Read_pass_tampered]
    by (simp add: Read_def Buffer_Read_def cli0_def cli_tampered_def)
  moreover have "snd (Read ex 10 cli_after_bad_mac) = Ok [0, 0, 0, 1, 0, 0, 0, 0, 0, 0]"
    by (simp add: Read_def Buffer_Read_def replicate_num cli_after_bad_mac_def)
  ultimately show ?thesis
    by (simp add: cli_after_bad_mac_def)
qed

text \<open>
  The same record, untampered, but the carrier breaks with an I/O error after two bytes
  of the payload.
\<close>

definition cli_cut :: Conn where
  "cli_cut =
     cli0\<lparr>conn := (conn cli0)\<lparr>inp := [[0, 0, 3, 0] @ replicate 12 0 @ replicate 4 5, [1, 2]],
                              inp_err := ErrIO 7\<rparr>\<rparr>"

text \<open>
  Claim C8 at this input. \<open>Read\<close> reports the failure of \<open>Open\<close>, not the carrier's
  error, whereas \<open>readAndCheck\<close>, which reads the payload of the other commands, reports
  the carrier's error on the same carrier.
\<close>

theorem Read_payload_io_error_as_open_failure:
  "snd (Read ex 10 cli_cut) = Err ErrOpen
   \<and> snd (readAndCheck ex 3
            (cli0\<lparr>conn := (conn cli0)\<lparr>inp := [[1, 2]], inp_err := ErrIO 7\<rparr>\<rparr>))
       = Err (ErrIO 7)"
proof -
  have "snd (Read_pass ex 10 cli_cut) = Return (Err ErrOpen)"
    by (simp add: Read_defs ex_defs cli0_def cli_cut_def)
  then obtain c' where "Read_pass ex 10 cli_cut = (c', Return (Err ErrOpen))"
    by (cases "Read_pass ex 10 cli_cut") auto
  from Read_loop_Return [OF this]
  have "snd (Read ex 10 cli_cut) = Err ErrOpen"
    by (simp add: Read_def Buffer_Read_def cli0_def cli_cut_def)
  moreover have "snd (readAndCheck ex 3
            (cli0\<lparr>conn := (conn cli0)\<lparr>inp := [[1, 2]], inp_err := ErrIO 7\<rparr>\<rparr>))
       = Err (ErrIO 7)"
    by (simp add: readAndCheck_def Read_defs cli0_def)
  ultimately show ?thesis by simp
qed

section \<open>Writing\<close>

lemma Write_loop_Nil [simp]: "Write_loop P [] c = Some (c, Ok ())"
  by (subst Write_loop.simps) simp

text \<open>One turn of the loop on a buffer that is not empty.\<close>

lemma Write_loop_step:
  assumes "buf \<noteq> []"
  shows "Write_loop P buf c =
     (case write_Seal P (PutUint32 (Write_header (length (take (length (writeBuf c)) buf)))) c of
        None \<Rightarrow> Some (c, Panic)
      | Some (ct, c1) \<Rightarrow>
          (case Write_checked ct (conn c1) of
             (u, Some e) \<Rightarrow> Some (c1\<lparr>conn := u\<rparr>, Err e)
           | (u, None) \<Rightarrow>
               (case write_Seal P (take (length (writeBuf c)) buf) (c1\<lparr>conn := u\<rparr>) of
                  None \<Rightarrow> Some (c1\<lparr>conn := u\<rparr>, Panic)
                | Some (ct', c3) \<Rightarrow>
                    (case Write_checked ct' (conn c3) of
                       (u', Some e) \<Rightarrow> Some (c3\<lparr>conn := u'\<rparr>, Err e)
                     | (u', None) \<Rightarrow>
                         Write_loop P (drop (length (writeBuf c)) buf) (c3\<lparr>conn := u'\<rparr>)))))"
proof -
  have t: "(if length buf \<le> length (writeBuf c) then buf else take (length (writeBuf c)) buf)
           = take (length (writeBuf c)) buf"
    by simp
  have d: "(if length buf \<le> length (writeBuf c) then [] else drop (length (writeBuf c)) buf)
           = drop (length (writeBuf c)) buf"
    by simp
  show ?thesis
    using assms by (subst Write_loop.simps) (simp add: Let_def t d del: take_all drop_all)
qed

text \<open>The loop touches the carrier and the write half only.\<close>

lemma Write_loop_frame:
  assumes "Write_loop P buf c = Some y"
  shows "\<exists>u w. fst y = c\<lparr>conn := u, write_half := w\<rparr>"
proof -
  have "(\<lambda>x y. \<exists>u w. fst y = (snd x)\<lparr>conn := u, write_half := w\<rparr>) ((P, buf), c) y"
  proof (rule Write_loop.raw_induct [OF _ assms], goal_cases)
    case (1 f P buf c y)
    note IH = "1"(1) and body = "1"(2)
    let ?L = "length (writeBuf c)"
    let ?chunk = "if length buf \<le> ?L then buf else take ?L buf"
    let ?rest = "if length buf \<le> ?L then [] else drop ?L buf"
    have same: "\<exists>u w. c = c\<lparr>conn := u, write_half := w\<rparr>"
      by (rule exI [of _ "conn c"], rule exI [of _ "write_half c"]) simp
    have upd: "\<exists>u w. x\<lparr>conn := u'\<rparr> = c\<lparr>conn := u, write_half := w\<rparr>"
      if "x = c\<lparr>write_half := w'\<rparr>" for x u' w'
      using that by (intro exI [of _ u'] exI [of _ w']) simp
    have "\<exists>u w. fst y = c\<lparr>conn := u, write_half := w\<rparr>"
    proof (cases "0 < length buf")
      case False
      with body have fy: "fst y = c" by auto
      show ?thesis unfolding fy by (rule same)
    next
      case True
      show ?thesis
      proof (cases "write_Seal P (PutUint32 (Write_header (length ?chunk))) c")
        case None
        with body True have fy: "fst y = c" by (auto simp add: Let_def)
        show ?thesis unfolding fy by (rule same)
      next
        case (Some a)
        then obtain ct c1 where s1: "write_Seal P (PutUint32 (Write_header (length ?chunk))) c = Some (ct, c1)"
          by (cases a) auto
        note c1 = write_Seal_Some [OF s1]
        obtain u e where w1: "Write_checked ct (conn c1) = (u, e)"
          by (cases "Write_checked ct (conn c1)") auto
        show ?thesis
        proof (cases e)
          case (Some e')
          with body True s1 w1 have "fst y = c1\<lparr>conn := u\<rparr>" by (auto simp add: Let_def)
          with upd [OF c1] show ?thesis by simp
        next
          case None
          show ?thesis
          proof (cases "write_Seal P ?chunk (c1\<lparr>conn := u\<rparr>)")
            case n2: None
            with body True s1 w1 None have "fst y = c1\<lparr>conn := u\<rparr>" by (auto simp add: Let_def)
            with upd [OF c1] show ?thesis by simp
          next
            case (Some a2)
            then obtain ct2 c3 where s2: "write_Seal P ?chunk (c1\<lparr>conn := u\<rparr>) = Some (ct2, c3)"
              by (cases a2) auto
            have c3: "c3 = c\<lparr>conn := u,
                write_half := map_option incSeq (map_option incSeq (write_half c))\<rparr>"
              using write_Seal_Some [OF s2] c1 by simp
            obtain u2 e2 where w2: "Write_checked ct2 (conn c3) = (u2, e2)"
              by (cases "Write_checked ct2 (conn c3)") auto
            show ?thesis
            proof (cases e2)
              case e2: (Some e')
              with body True s1 w1 None s2 w2 have "fst y = c3\<lparr>conn := u2\<rparr>"
                by (auto simp add: Let_def)
              then have "fst y = c\<lparr>conn := u2,
                  write_half := map_option incSeq (map_option incSeq (write_half c))\<rparr>"
                by (simp add: c3)
              then show ?thesis by blast
            next
              case e2: None
              with body True s1 w1 None s2 w2
              have rec: "f P ?rest (c3\<lparr>conn := u2\<rparr>) = Some y" by (auto simp add: Let_def)
              from IH [OF rec] obtain u' w' where
                "fst y = c3\<lparr>conn := u2\<rparr>\<lparr>conn := u', write_half := w'\<rparr>" by auto
              then have "fst y = c\<lparr>conn := u', write_half := w'\<rparr>"
                by (simp add: c3)
              then show ?thesis by blast
            qed
          qed
        qed
      qed
    qed
    then show ?case by simp
  qed
  then show ?thesis by simp
qed

lemma Write_checked_None:
  "Write_checked ct u = (u', None) \<Longrightarrow>
     out u' = out u @ ct \<and> inp u' = inp u \<and> inp_err u' = inp_err u
     \<and> (out_room u = None \<longrightarrow> out_room u' = None)"
  by (auto simp add: Write_checked_def conn_Write_def split: option.splits if_splits)

lemma Write_checked_unlimited:
  "out_room u = None \<Longrightarrow> Write_checked ct u = (u\<lparr>out := out u @ ct\<rparr>, None)"
  by (simp add: Write_checked_def conn_Write_def)

lemma half_Seal_Some:
  "half_Seal P (Some \<lparr>aead = Some k, seq = s\<rparr>) pt =
     (if length s \<noteq> NonceSize then None else Some (aead_Seal P k s pt))"
  by (simp add: half_Seal_def)

lemma incSeq_half [simp]: "incSeq \<lparr>aead = a, seq = s\<rparr> = \<lparr>aead = a, seq = inc_le s\<rparr>"
  by (simp add: incSeq_def incSeq_loop_0)

lemma write_Seal_valid:
  assumes "write_half c = Some \<lparr>aead = Some k, seq = s\<rparr>" and "length s = NonceSize"
  shows "write_Seal P pt c =
     Some (aead_Seal P k s pt, c\<lparr>write_half := Some \<lparr>aead = Some k, seq = inc_le s\<rparr>\<rparr>)"
  using assms by (simp add: write_Seal_def half_Seal_Some)

text \<open>With a write buffer that is not empty the loop returns.\<close>

lemma Write_loop_returns:
  "writeBuf c \<noteq> [] \<Longrightarrow> \<exists>y. Write_loop P buf c = Some y"
proof (induction "length buf" arbitrary: buf c rule: less_induct)
  case less
  show ?case
  proof (cases "buf = []")
    case True
    then show ?thesis by simp
  next
    case False
    let ?L = "length (writeBuf c)"
    have lt: "length (drop ?L buf) < length buf"
      using False less.prems by simp
    have rec: "\<exists>a b. Write_loop P (drop ?L buf) x = Some (a, b)"
      if "writeBuf x = writeBuf c" for x
      using less.hyps [OF lt, of x] that less.prems by auto
    have wb: "writeBuf x' = writeBuf x" if "write_Seal P pt x = Some (ct, x')" for pt x ct x'
      using write_Seal_Some [OF that] by simp
    show ?thesis
      unfolding Write_loop_step [OF False]
      by (auto split: option.splits prod.splits intro!: rec dest!: wb)
  qed
qed

text \<open>The chunks into which the loop cuts \<open>buf\<close> with a write buffer of \<open>L\<close> bytes, and
  what it puts on the carrier for a list of chunks under key \<open>k\<close> from nonce \<open>s\<close> on: for
  each chunk a sealed header and the sealed chunk.\<close>

function chunks :: "nat \<Rightarrow> bytes \<Rightarrow> bytes list" where
  "chunks L buf = (if buf = [] \<or> L = 0 then [] else take L buf # chunks L (drop L buf))"
  by pat_completeness auto
termination
  by (relation "measure (\<lambda>(L, buf). length buf)") auto

declare chunks.simps [simp del]

fun seal_chunks :: "prims \<Rightarrow> bytes \<Rightarrow> bytes \<Rightarrow> bytes list \<Rightarrow> bytes" where
  "seal_chunks P k s [] = []"
| "seal_chunks P k s (ch # chs) =
     aead_Seal P k s (PutUint32 (Write_header (length ch)))
     @ aead_Seal P k (inc_le s) ch
     @ seal_chunks P k (inc_le (inc_le s)) chs"

lemma concat_chunks: "0 < L \<Longrightarrow> concat (chunks L buf) = buf"
proof (induction L buf rule: chunks.induct)
  case (1 L buf)
  then show ?case by (subst chunks.simps) auto
qed

lemma chunks_bound: "x \<in> set (chunks L buf) \<Longrightarrow> x \<noteq> [] \<and> length x \<le> L"
proof (induction L buf rule: chunks.induct)
  case (1 L buf)
  show ?case
  proof (cases "buf = [] \<or> L = 0")
    case True
    with "1.prems" show ?thesis by (subst (asm) chunks.simps) simp
  next
    case False
    with "1.prems" have "x = take L buf \<or> x \<in> set (chunks L (drop L buf))"
      by (subst (asm) chunks.simps) auto
    then show ?thesis
    proof
      assume "x = take L buf"
      with False show ?thesis by auto
    next
      assume "x \<in> set (chunks L (drop L buf))"
      with "1.IH" [OF False] show ?thesis .
    qed
  qed
qed

text \<open>Advancing a nonce \<open>n\<close> times.\<close>

definition adv :: "nat \<Rightarrow> bytes \<Rightarrow> bytes" where
  "adv n s = (inc_le ^^ n) s"

lemma adv_0 [simp]: "adv 0 s = s"
  by (simp add: adv_def)

lemma adv_Suc2: "adv (2 * Suc n) s = adv (2 * n) (inc_le (inc_le s))"
  by (simp add: adv_def funpow_swap1)

lemma length_adv [simp]: "length (adv n s) = length s"
  by (induction n) (simp_all add: adv_def)

lemma Write_loop_Ok:
  assumes "write_half c = Some \<lparr>aead = Some k, seq = s\<rparr>" and "length s = NonceSize"
    and "writeBuf c \<noteq> []" and "Write_loop P buf c = Some (c', Ok x)"
  shows "out (conn c') = out (conn c) @ seal_chunks P k s (chunks (length (writeBuf c)) buf)
     \<and> inp (conn c') = inp (conn c)
     \<and> write_half c' =
         Some \<lparr>aead = Some k, seq = adv (2 * length (chunks (length (writeBuf c)) buf)) s\<rparr>"
  using assms
proof (induction "length buf" arbitrary: buf c s rule: less_induct)
  case less
  let ?L = "length (writeBuf c)"
  show ?case
  proof (cases "buf = []")
    case True
    with less.prems show ?thesis by (simp add: chunks.simps)
  next
    case False
    let ?h = "aead_Seal P k s (PutUint32 (Write_header (length (take ?L buf))))"
    let ?p = "aead_Seal P k (inc_le s) (take ?L buf)"
    let ?c1 = "c\<lparr>write_half := Some \<lparr>aead = Some k, seq = inc_le s\<rparr>\<rparr>"
    have s1: "write_Seal P (PutUint32 (Write_header (length (take ?L buf)))) c = Some (?h, ?c1)"
      using less.prems(1,2) by (rule write_Seal_valid)
    obtain u e where w1: "Write_checked ?h (conn ?c1) = (u, e)"
      by (cases "Write_checked ?h (conn ?c1)") auto
    have e: "e = None"
      using less.prems(4) s1 w1 unfolding Write_loop_step [OF False] by (cases e) auto
    let ?c2 = "?c1\<lparr>conn := u\<rparr>"
    let ?c3 = "?c2\<lparr>write_half := Some \<lparr>aead = Some k, seq = inc_le (inc_le s)\<rparr>\<rparr>"
    have s2: "write_Seal P (take ?L buf) ?c2 = Some (?p, ?c3)"
      using less.prems(2) by (intro write_Seal_valid) simp_all
    obtain u2 e2 where w2: "Write_checked ?p (conn ?c3) = (u2, e2)"
      by (cases "Write_checked ?p (conn ?c3)") auto
    have e2: "e2 = None"
      using less.prems(4) s1 w1 e s2 w2 unfolding Write_loop_step [OF False] by (cases e2) auto
    have rec: "Write_loop P (drop ?L buf) (?c3\<lparr>conn := u2\<rparr>) = Some (c', Ok x)"
      using less.prems(4) s1 w1 e s2 w2 e2 unfolding Write_loop_step [OF False] by simp
    have lt: "length (drop ?L buf) < length buf"
      using False less.prems(3) by simp
    have o1: "out u = out (conn c) @ ?h" "inp u = inp (conn c)"
      using Write_checked_None [OF w1 [unfolded e]] by simp_all
    have o2: "out u2 = out (conn c) @ ?h @ ?p" "inp u2 = inp (conn c)"
      using Write_checked_None [OF w2 [unfolded e2]] o1 by simp_all
    from less.hyps [OF lt _ _ _ rec, of "inc_le (inc_le s)"] less.prems(2,3)
    have "out (conn c') = out u2 @ seal_chunks P k (inc_le (inc_le s)) (chunks ?L (drop ?L buf))
       \<and> inp (conn c') = inp u2
       \<and> write_half c' = Some \<lparr>aead = Some k,
            seq = adv (2 * length (chunks ?L (drop ?L buf))) (inc_le (inc_le s))\<rparr>"
      by simp
    moreover have ch: "chunks ?L buf = take ?L buf # chunks ?L (drop ?L buf)"
      using False less.prems(3) by (subst chunks.simps) simp
    ultimately show ?thesis
      using o2 adv_Suc2 [of "length (chunks ?L (drop ?L buf))" s] by (simp add: ch)
  qed
qed

lemma Write_loop_unlimited:
  assumes "write_half c = Some \<lparr>aead = Some k, seq = s\<rparr>" and "length s = NonceSize"
    and "writeBuf c \<noteq> []" and "out_room (conn c) = None"
  shows "\<exists>c'. Write_loop P buf c = Some (c', Ok ())"
  using assms
proof (induction "length buf" arbitrary: buf c s rule: less_induct)
  case less
  let ?L = "length (writeBuf c)"
  show ?case
  proof (cases "buf = []")
    case True
    then show ?thesis by simp
  next
    case False
    let ?h = "aead_Seal P k s (PutUint32 (Write_header (length (take ?L buf))))"
    let ?p = "aead_Seal P k (inc_le s) (take ?L buf)"
    let ?c1 = "c\<lparr>write_half := Some \<lparr>aead = Some k, seq = inc_le s\<rparr>\<rparr>"
    have s1: "write_Seal P (PutUint32 (Write_header (length (take ?L buf)))) c = Some (?h, ?c1)"
      using less.prems(1,2) by (rule write_Seal_valid)
    have w1: "Write_checked ?h (conn ?c1) = ((conn c)\<lparr>out := out (conn c) @ ?h\<rparr>, None)"
      using Write_checked_unlimited [OF less.prems(4), of ?h] by simp
    let ?c2 = "?c1\<lparr>conn := (conn c)\<lparr>out := out (conn c) @ ?h\<rparr>\<rparr>"
    let ?c3 = "?c2\<lparr>write_half := Some \<lparr>aead = Some k, seq = inc_le (inc_le s)\<rparr>\<rparr>"
    have s2: "write_Seal P (take ?L buf) ?c2 = Some (?p, ?c3)"
      using less.prems(2) by (intro write_Seal_valid) simp_all
    have w2: "Write_checked ?p (conn ?c3)
        = ((conn c)\<lparr>out := out (conn c) @ ?h @ ?p\<rparr>, None)"
      using less.prems(4) by (simp add: Write_checked_unlimited)
    have lt: "length (drop ?L buf) < length buf"
      using False less.prems(3) by simp
    let ?c4 = "?c3\<lparr>conn := (conn c)\<lparr>out := out (conn c) @ ?h @ ?p\<rparr>\<rparr>"
    have "\<exists>c'. Write_loop P (drop ?L buf) ?c4 = Some (c', Ok ())"
      using less.prems(2,3,4) by (intro less.hyps [OF lt, of _ "inc_le (inc_le s)"]) simp_all
    then show ?thesis
      unfolding Write_loop_step [OF False] using s1 w1 s2 w2 by simp
  qed
qed

lemmas Write_defs = Write_def startRekey_def sendBuffer_def write_Seal_def half_Seal_def
  Write_checked_def conn_Write_def Write_header_def sendBuffer_header_def PutUint32_def
  GenerateKey_def rand_ReadFull_def arr32_def NonceSize_def BlockSize_def
  pStartRekey_def RekeyNext_def Write_loop_step Let_def

text \<open>The nonces 0, 1, 2, ... of a half.\<close>

definition nonce :: "byte \<Rightarrow> bytes" where
  "nonce i = i # replicate 11 0"

lemma inc_le_nonce [simp]: "i < 255 \<Longrightarrow> inc_le (nonce i) = nonce (i + 1)"
  by (simp add: nonce_def)

lemma nonce_0: "replicate 12 0 = nonce 0"
  by (simp add: nonce_def replicate_num)

lemma length_nonce [simp]: "length (nonce i) = 12"
  by (simp add: nonce_def)

subsection \<open>The write buffer and the tunable\<close>

text \<open>
  The tunable \<open>WriteBufferSize\<close> is set to 4 before the connection is made. The server
  of the example completes the same handshake, and its write buffer is 128 bytes long.
\<close>

definition G4 :: tunables where
  "G4 = G0\<lparr>WriteBufferSize := 4\<rparr>"

lemma Negotiate_server_G4:
  "Negotiate ex G4 True
     (NewConn G4 (wire [PutUint32 32, take 32 rnd_c, PutUint32 16, drop 32 rnd_c]) rnd_s 0)
   = (srv0, Ok ())"
  by (simp add: ex_defs Negotiate_defs srv0_def G4_def)

definition srv_wrote6 :: Conn where
  "srv_wrote6 =
     srv0\<lparr>conn := (conn srv0)\<lparr>out := out (conn srv0)
                 @ ex_Seal (replicate 16 5) (nonce 0) [0, 0, 6, 0]
                 @ ex_Seal (replicate 16 5) (nonce 1) [1, 2, 3, 4, 5, 6]\<rparr>,
          rekeyLeft := 104857594,
          write_half := Some \<lparr>aead = Some (replicate 16 5), seq = nonce 2\<rparr>\<rparr>"

lemma Write_srv0_6: "Write ex G4 [1, 2, 3, 4, 5, 6] srv0 = Some (srv_wrote6, Ok 6)"
  by (simp add: Write_defs srv0_def srv_wrote6_def nonce_0) (simp add: nonce_def ex_Seal_def)

lemma Write_Ok_length: "Write P G buf c = Some (c', Ok n) \<Longrightarrow> n = length buf"
  by (auto simp add: Write_def split: if_splits prod.splits res.splits option.splits)

text \<open>
  Claim C5 at this input. With the tunable at 4, \<open>Write\<close> of six bytes returns 6 and
  emits a single record whose payload is all six bytes: the chunk is bounded by the 128
  bytes of the write buffer, not by the tunable, which would give the two chunks shown
  last.
\<close>

theorem Write_chunk_exceeds_WriteBufferSize:
  "WriteBufferSize G4 = 4
   \<and> Negotiate ex G4 True
       (NewConn G4 (wire [PutUint32 32, take 32 rnd_c, PutUint32 16, drop 32 rnd_c]) rnd_s 0)
     = (srv0, Ok ())
   \<and> length (writeBuf srv0) = 128
   \<and> Write ex G4 [1, 2, 3, 4, 5, 6] srv0 = Some (srv_wrote6, Ok 6)
   \<and> out (conn srv_wrote6) =
       out (conn srv0) @ seal_chunks ex (replicate 16 5) (nonce 0) [[1, 2, 3, 4, 5, 6]]
   \<and> chunks 4 [1, 2, 3, 4, 5, 6] = [[1, 2, 3, 4], [5, 6]]"
proof -
  have "chunks 4 [1, 2, 3, 4, 5, 6 :: byte] = [[1, 2, 3, 4], [5, 6]]"
    by (simp add: chunks.simps)
  moreover have "WriteBufferSize G4 = 4" by (simp add: G4_def G0_def)
  moreover have "length (writeBuf srv0) = 128" by (simp add: srv0_def)
  moreover have "out (conn srv_wrote6) =
       out (conn srv0) @ seal_chunks ex (replicate 16 5) (nonce 0) [[1, 2, 3, 4, 5, 6]]"
    by (simp add: srv_wrote6_def Write_header_def PutUint32_def ex_Seal_def)
  ultimately show ?thesis
    using Negotiate_server_G4 Write_srv0_6 by simp
qed

section \<open>Rekeying\<close>

text \<open>
  A faithful carrier between two endpoints: what one of them has written since an
  earlier state is handed to the other, here in one segment.
\<close>

definition sent :: "Conn \<Rightarrow> Conn \<Rightarrow> bytes" where
  "sent c c' = drop (length (out (conn c))) (out (conn c'))"

definition deliver :: "bytes \<Rightarrow> Conn \<Rightarrow> Conn" where
  "deliver bs c = c\<lparr>conn := (conn c)\<lparr>inp := inp (conn c) @ [bs]\<rparr>\<rparr>"

text \<open>
  The random source of the server goes on, after the handshake, with two private keys
  \<open>s1\<close>, \<open>s2\<close> and a salt after each; that of the client with two private keys \<open>a\<close>, \<open>b\<close>.
  With the stand-ins for the primitives a public key is the private key, the secret of
  two keys is their exclusive or, and its two halves are the keys 0 and 1.
\<close>

definition key_s1 :: bytes where "key_s1 = replicate 16 3 @ replicate 16 12"
definition iv_s1 :: bytes where "iv_s1 = replicate 16 9"
definition key_s2 :: bytes where "key_s2 = replicate 16 6 @ replicate 16 24"
definition iv_s2 :: bytes where "iv_s2 = replicate 16 17"
definition key_a :: bytes where "key_a = replicate 16 32 @ replicate 16 64"
definition key_b :: bytes where "key_b = replicate 16 33 @ replicate 16 65"

definition srv_rnd :: Conn where
  "srv_rnd = srv0\<lparr>rand_Reader := key_s1 @ iv_s1 @ key_s2 @ iv_s2\<rparr>"

definition cli_rnd :: Conn where
  "cli_rnd = cli0\<lparr>rand_Reader := key_a @ key_b\<rparr>"

lemmas key_defs = key_s1_def iv_s1_def key_s2_def iv_s2_def key_a_def key_b_def

lemma Negotiate_server_rnd:
  "Negotiate ex G0 True
     (NewConn G0 (wire [PutUint32 32, take 32 rnd_c, PutUint32 16, drop 32 rnd_c])
        (rnd_s @ key_s1 @ iv_s1 @ key_s2 @ iv_s2) 0)
   = (srv_rnd, Ok ())"
  by (simp add: ex_defs Negotiate_defs srv0_def srv_rnd_def key_defs)

lemma Negotiate_client_rnd:
  "Negotiate ex G0 False
     (NewConn G0 (wire [PutUint32 32, take 32 rnd_s]) (rnd_c @ key_a @ key_b) 0)
   = (cli_rnd, Ok ())"
  by (simp add: ex_defs Negotiate_defs cli0_def cli_rnd_def key_defs)

subsection \<open>The server starts a rekey, and another\<close>

text \<open>
  \<open>RekeyNext\<close> and a write of the byte 7: the server draws \<open>s1\<close> and its salt and sends
  START_REKEY and the DATA record, under the key 5 of the handshake.
\<close>

definition srv_proposed :: Conn where
  "srv_proposed =
     srv0\<lparr>conn := (conn srv0)\<lparr>out := out (conn srv0)
                 @ ex_Seal (replicate 16 5) (nonce 0) [0, 0, 48, 1]
                 @ ex_Seal (replicate 16 5) (nonce 1) (key_s1 @ iv_s1)
                 @ ex_Seal (replicate 16 5) (nonce 2) [0, 0, 1, 0]
                 @ ex_Seal (replicate 16 5) (nonce 3) [7]\<rparr>,
          write_half := Some \<lparr>aead = Some (replicate 16 5), seq = nonce 4\<rparr>,
          nextPubKey := Some key_s1, nextPrivKey := Some key_s1,
          nextIv := Some iv_s1, rand_Reader := key_s2 @ iv_s2\<rparr>"

text \<open>A write of the byte 8 after that, with no second \<open>RekeyNext\<close>.\<close>

definition srv_proposed_wrote :: Conn where
  "srv_proposed_wrote =
     srv_proposed\<lparr>conn := (conn srv_proposed)\<lparr>out := out (conn srv_proposed)
                 @ ex_Seal (replicate 16 5) (nonce 4) [0, 0, 1, 0]
                 @ ex_Seal (replicate 16 5) (nonce 5) [8]\<rparr>,
          write_half := Some \<lparr>aead = Some (replicate 16 5), seq = nonce 6\<rparr>,
          rekeyLeft := 104857599\<rparr>"

text \<open>The same write after a second \<open>RekeyNext\<close>: the server draws \<open>s2\<close> and its salt, which
  replace \<open>s1\<close> and its salt, and sends a second START_REKEY.\<close>

definition srv_proposed_twice :: Conn where
  "srv_proposed_twice =
     srv_proposed\<lparr>conn := (conn srv_proposed)\<lparr>out := out (conn srv_proposed)
                 @ ex_Seal (replicate 16 5) (nonce 4) [0, 0, 48, 1]
                 @ ex_Seal (replicate 16 5) (nonce 5) (key_s2 @ iv_s2)
                 @ ex_Seal (replicate 16 5) (nonce 6) [0, 0, 1, 0]
                 @ ex_Seal (replicate 16 5) (nonce 7) [8]\<rparr>,
          write_half := Some \<lparr>aead = Some (replicate 16 5), seq = nonce 8\<rparr>,
          nextPubKey := Some key_s2, nextPrivKey := Some key_s2,
          nextIv := Some iv_s2, rand_Reader := []\<rparr>"

lemma Write_srv_rnd: "Write ex G0 [7] (RekeyNext srv_rnd) = Some (srv_proposed, Ok 1)"
  by (simp add: Write_defs G0_def srv0_def srv_rnd_def srv_proposed_def nonce_0 ex_base_def
        key_defs)
     (simp add: nonce_def ex_Seal_def replicate_num)

lemma Write_srv_proposed: "Write ex G0 [8] srv_proposed = Some (srv_proposed_wrote, Ok 1)"
  by (simp add: Write_defs srv0_def srv_proposed_def srv_proposed_wrote_def)
     (simp add: nonce_def ex_Seal_def)

lemma Write_srv_proposed_RekeyNext:
  "Write ex G0 [8] (RekeyNext srv_proposed) = Some (srv_proposed_twice, Ok 1)"
  by (simp add: Write_defs G0_def srv0_def srv_proposed_def srv_proposed_twice_def ex_base_def
        key_defs)
     (simp add: nonce_def ex_Seal_def replicate_num)

text \<open>
  In general: no write sets \<open>nextPeerKey\<close>, not even one that starts a rekey, so once
  the guard lets a write through it lets the following writes through as well; and a
  read of the server that handles the client's answer with no error has cleared the
  field again when it returns.
\<close>

lemma startRekey_nextPeerKey:
  assumes "startRekey P G c = (c', r)"
  shows "nextPeerKey c' = nextPeerKey c"
proof -
  have sb: "nextPeerKey (fst (sendBuffer P cmd buf d)) = nextPeerKey d" for cmd buf d
    using sendBuffer_frame [of P cmd buf d "fst (sendBuffer P cmd buf d)"
            "snd (sendBuffer P cmd buf d)"]
    by auto
  from assms show ?thesis
    unfolding startRekey_def Let_def
    by (auto split: prod.splits res.splits option.splits if_splits
             simp add: sb [THEN trans] dest!: arg_cong [where f = fst])
qed

lemma Write_nextPeerKey:
  assumes "Write P G buf c = Some (c', r)"
  shows "nextPeerKey c' = nextPeerKey c"
proof -
  have l: "nextPeerKey d' = nextPeerKey d" if "Write_loop P buf d = Some (d', x)" for d d' x
    using Write_loop_frame [OF that] by auto
  from assms show ?thesis
    unfolding Write_def
    by (auto split: prod.splits res.splits option.splits if_splits
             dest!: l startRekey_nextPeerKey)
qed

lemma readServerRekeyed_Ok_nextPeerKey:
  assumes "readServerRekeyed P cnt c = (c', Ok x)"
  shows "nextPeerKey c' = None"
  using assms
  unfolding readServerRekeyed_def sendServerRekeyed_def commit_next_def
  by (auto split: prod.splits res.splits option.splits if_splits)

text \<open>
  Claim C4 at this input. After the handshake, \<open>RekeyNext\<close> and a write leave the server
  with a rekey under way: its next key pair and salt are set, while \<open>nextPeerKey\<close>, the
  only field that the guard of \<open>Write\<close> looks at, is nil. So the next write takes its
  byte off the budget; and after another \<open>RekeyNext\<close> (or once the budget or the validity
  period is used up) the next write starts a second rekey: it draws a fresh key pair and
  salt, which replace those of the first, and puts a second START_REKEY record on the
  carrier before its DATA record.
\<close>

theorem Write_starts_second_rekey:
  "Negotiate ex G0 True
     (NewConn G0 (wire [PutUint32 32, take 32 rnd_c, PutUint32 16, drop 32 rnd_c])
        (rnd_s @ key_s1 @ iv_s1 @ key_s2 @ iv_s2) 0)
     = (srv_rnd, Ok ())
   \<and> Write ex G0 [7] (RekeyNext srv_rnd) = Some (srv_proposed, Ok 1)
   \<and> server srv_proposed
   \<and> nextPubKey srv_proposed = Some key_s1 \<and> nextPrivKey srv_proposed = Some key_s1
   \<and> nextIv srv_proposed = Some iv_s1 \<and> nextPeerKey srv_proposed = None
   \<and> rekeyLeft srv_proposed = 104857600
   \<and> Write ex G0 [8] srv_proposed = Some (srv_proposed_wrote, Ok 1)
   \<and> rekeyLeft srv_proposed_wrote = 104857599
   \<and> Write ex G0 [8] (RekeyNext srv_proposed) = Some (srv_proposed_twice, Ok 1)
   \<and> nextPubKey srv_proposed_twice = Some key_s2 \<and> nextPrivKey srv_proposed_twice = Some key_s2
   \<and> nextIv srv_proposed_twice = Some iv_s2 \<and> key_s2 \<noteq> key_s1 \<and> iv_s2 \<noteq> iv_s1
   \<and> sent srv_proposed srv_proposed_twice =
       ex_Seal (replicate 16 5) (nonce 4) (PutUint32 (sendBuffer_header pStartRekey 48))
       @ ex_Seal (replicate 16 5) (nonce 5) (key_s2 @ iv_s2)
       @ ex_Seal (replicate 16 5) (nonce 6) (PutUint32 (Write_header 1))
       @ ex_Seal (replicate 16 5) (nonce 7) [8]"
proof -
  have "sent srv_proposed srv_proposed_twice =
       ex_Seal (replicate 16 5) (nonce 4) (PutUint32 (sendBuffer_header pStartRekey 48))
       @ ex_Seal (replicate 16 5) (nonce 5) (key_s2 @ iv_s2)
       @ ex_Seal (replicate 16 5) (nonce 6) (PutUint32 (Write_header 1))
       @ ex_Seal (replicate 16 5) (nonce 7) [8]"
    by (simp add: sent_def srv_proposed_twice_def PutUint32_def sendBuffer_header_def
          Write_header_def pStartRekey_def ex_Seal_def)
  moreover have "key_s2 \<noteq> key_s1" "iv_s2 \<noteq> iv_s1"
    by (simp_all add: key_defs replicate_num)
  ultimately show ?thesis
    using Negotiate_server_rnd Write_srv_rnd Write_srv_proposed Write_srv_proposed_RekeyNext
    by (simp add: srv_proposed_def srv_proposed_wrote_def srv_proposed_twice_def srv0_def)
qed

subsection \<open>One rekey: the session goes on\<close>

lemmas Rekey_defs = readRekey_def readServerRekeyed_def readClientRekeyFinal_def
  readAndCheck_def sendClientRekey_def sendServerRekeyed_def derive_next_def nextKey_def
  commit_next_def iv_bytes_def setup_read_def setup_write_def half_setup_def makeKeys_def
  rekey_pass_def sendBuffer_def write_Seal_def half_Seal_def Write_checked_def
  conn_Write_def GenerateKey_def rand_ReadFull_def arr32_def cKeySize_def BlockSize_def
  sendBuffer_header_def PutUint32_def

text \<open>
  The client reads what the server has sent with its first rekey: it answers START_REKEY
  with its key \<open>a\<close>, sealed under its old key 10, takes the key 1 of the new secret for
  writing, and returns the byte 7.
\<close>

definition cli_answered :: Conn where
  "cli_answered =
     cli0\<lparr>conn := (conn cli0)\<lparr>out := out (conn cli0)
                 @ ex_Seal (replicate 16 10) (nonce 0) [0, 0, 32, 2]
                 @ ex_Seal (replicate 16 10) (nonce 1) key_a\<rparr>,
          read_half := Some \<lparr>aead = Some (replicate 16 5), seq = nonce 4\<rparr>,
          write_half := Some \<lparr>aead = Some (replicate 16 76), seq = nonce 0\<rparr>,
          nextPubKey := Some key_a, nextPrivKey := Some key_a, nextPeerKey := Some key_s1,
          nextShared := Some (replicate 16 35 @ replicate 16 76),
          nextKeys := Some [replicate 16 35, replicate 16 76],
          nextIv := Some iv_s1, rand_Reader := key_b\<rparr>"

lemma Read_loop_if:
  "Read_loop P len c =
     (if snd (Read_pass P len c) = Retry then Read_loop P len (fst (Read_pass P len c))
      else (fst (Read_pass P len c), case snd (Read_pass P len c) of Return r \<Rightarrow> r))"
  by (subst Read_loop.simps) (simp split: prod.splits pass.splits)

lemma Read_cli_rnd:
  "Read ex 10 (deliver (sent srv_rnd srv_proposed) cli_rnd) = (cli_answered, Ok [7])"
  by (simp add: Read_def Read_loop_if Read_defs Rekey_defs ex_defs sent_def deliver_def
        srv_rnd_def srv_proposed_def cli_rnd_def cli_answered_def srv0_def cli0_def key_defs
        nonce_def)

text \<open>The client writes the byte 9 under its new key.\<close>

definition cli_answered_wrote :: Conn where
  "cli_answered_wrote =
     cli_answered\<lparr>conn := (conn cli_answered)\<lparr>out := out (conn cli_answered)
                 @ ex_Seal (replicate 16 76) (nonce 0) [0, 0, 1, 0]
                 @ ex_Seal (replicate 16 76) (nonce 1) [9]\<rparr>,
          write_half := Some \<lparr>aead = Some (replicate 16 76), seq = nonce 2\<rparr>\<rparr>"

lemma Write_cli_answered:
  "Write ex G0 [9] cli_answered = Some (cli_answered_wrote, Ok 1)"
  by (simp add: Write_defs cli0_def cli_answered_def cli_answered_wrote_def)
     (simp add: nonce_def ex_Seal_def)

text \<open>
  The server reads: the client's key arrives under the old key 10, the server derives
  the same secret from \<open>s1\<close>, takes its key 1 for reading, sends FINALIZE_REKEY under
  the old key 5, takes the key 0 for writing, commits, and returns the byte 9.
\<close>

definition srv_rekeyed :: Conn where
  "srv_rekeyed =
     srv_proposed\<lparr>conn := (conn srv_proposed)\<lparr>out := out (conn srv_proposed)
                 @ ex_Seal (replicate 16 5) (nonce 4) [0, 0, 0, 3]
                 @ ex_Seal (replicate 16 5) (nonce 5) []\<rparr>,
          read_half := Some \<lparr>aead = Some (replicate 16 76), seq = nonce 2\<rparr>,
          write_half := Some \<lparr>aead = Some (replicate 16 35), seq = nonce 0\<rparr>,
          shared := Some (replicate 16 35 @ replicate 16 76),
          privKey := Some key_s1, pubKey := Some key_s1, peerKey := Some key_a,
          nextPrivKey := None, nextIv := None\<rparr>"

lemma Read_srv_proposed:
  "Read ex 10 (deliver (sent cli_rnd cli_answered_wrote) srv_proposed) = (srv_rekeyed, Ok [9])"
  by (simp add: Read_def Read_loop_if Read_defs Rekey_defs ex_defs sent_def deliver_def
        cli_rnd_def cli_answered_def cli_answered_wrote_def srv_proposed_def srv_rekeyed_def
        srv0_def cli0_def key_defs nonce_def)

text \<open>The server writes the byte 5 under its new key, and the client, on reading
  FINALIZE_REKEY, takes the key 0 for reading, commits, and returns the byte.\<close>

definition srv_rekeyed_wrote :: Conn where
  "srv_rekeyed_wrote =
     srv_rekeyed\<lparr>conn := (conn srv_rekeyed)\<lparr>out := out (conn srv_rekeyed)
                 @ ex_Seal (replicate 16 35) (nonce 0) [0, 0, 1, 0]
                 @ ex_Seal (replicate 16 35) (nonce 1) [5]\<rparr>,
          write_half := Some \<lparr>aead = Some (replicate 16 35), seq = nonce 2\<rparr>,
          rekeyLeft := 104857599\<rparr>"

lemma Write_srv_rekeyed:
  "Write ex G0 [5] srv_rekeyed = Some (srv_rekeyed_wrote, Ok 1)"
  by (simp add: Write_defs srv0_def srv_proposed_def srv_rekeyed_def srv_rekeyed_wrote_def)
     (simp add: nonce_def ex_Seal_def)

definition cli_rekeyed :: Conn where
  "cli_rekeyed =
     cli_answered_wrote\<lparr>
          read_half := Some \<lparr>aead = Some (replicate 16 35), seq = nonce 2\<rparr>,
          shared := Some (replicate 16 35 @ replicate 16 76),
          privKey := Some key_a, pubKey := Some key_a, peerKey := Some key_s1,
          nextPrivKey := None, nextPeerKey := None, nextShared := None,
          nextKeys := None, nextIv := None\<rparr>"

lemma Read_cli_answered_wrote:
  "Read ex 10 (deliver (sent srv_proposed srv_rekeyed_wrote) cli_answered_wrote)
   = (cli_rekeyed, Ok [5])"
  by (simp add: Read_def Read_loop_if Read_defs Rekey_defs ex_defs sent_def deliver_def
        cli_answered_def cli_answered_wrote_def cli_rekeyed_def srv_proposed_def
        srv_rekeyed_def srv_rekeyed_wrote_def srv0_def cli0_def key_defs nonce_def)

text \<open>
  With one rekey the stream goes on in both directions, and the two endpoints end with
  the new secret and matching halves: the client writes with key 1 and reads with key
  0 of the new secret, the server the other way round.
\<close>

lemma single_rekey_session:
  "Write ex G0 [7] (RekeyNext srv_rnd) = Some (srv_proposed, Ok 1)
   \<and> Read ex 10 (deliver (sent srv_rnd srv_proposed) cli_rnd) = (cli_answered, Ok [7])
   \<and> Write ex G0 [9] cli_answered = Some (cli_answered_wrote, Ok 1)
   \<and> Read ex 10 (deliver (sent cli_rnd cli_answered_wrote) srv_proposed) = (srv_rekeyed, Ok [9])
   \<and> Write ex G0 [5] srv_rekeyed = Some (srv_rekeyed_wrote, Ok 1)
   \<and> Read ex 10 (deliver (sent srv_proposed srv_rekeyed_wrote) cli_answered_wrote)
       = (cli_rekeyed, Ok [5])
   \<and> shared cli_rekeyed = shared srv_rekeyed_wrote
   \<and> write_half cli_rekeyed = read_half srv_rekeyed_wrote
   \<and> read_half cli_rekeyed = write_half srv_rekeyed_wrote"
  using Write_srv_rnd Read_cli_rnd Write_cli_answered Read_srv_proposed Write_srv_rekeyed
    Read_cli_answered_wrote
  by (simp add: cli_rekeyed_def cli_answered_wrote_def srv_rekeyed_wrote_def srv_rekeyed_def)

subsection \<open>Two rekeys: the session breaks\<close>

text \<open>
  The server has started two rekeys before the client reads. The first read of the
  client is as before and leaves the second START_REKEY and the byte 8 pending. On the
  second read the client answers the second START_REKEY with its key \<open>b\<close>, sealed under
  the key 76 that it took with the first answer, takes the key 89 that comes from \<open>b\<close>
  and \<open>s2\<close>, and returns the byte 8. Then it writes the byte 9 under that key.
\<close>

definition cli_got7 :: Conn where
  "cli_got7 =
     cli_answered\<lparr>conn := (conn cli_answered)\<lparr>inp := [sent srv_proposed srv_proposed_twice]\<rparr>\<rparr>"

definition cli_got8 :: Conn where
  "cli_got8 =
     cli_answered\<lparr>conn := (conn cli_answered)\<lparr>out := out (conn cli_answered)
                 @ ex_Seal (replicate 16 76) (nonce 0) [0, 0, 32, 2]
                 @ ex_Seal (replicate 16 76) (nonce 1) key_b\<rparr>,
          read_half := Some \<lparr>aead = Some (replicate 16 5), seq = nonce 8\<rparr>,
          write_half := Some \<lparr>aead = Some (replicate 16 89), seq = nonce 0\<rparr>,
          nextPubKey := Some key_b, nextPrivKey := Some key_b, nextPeerKey := Some key_s2,
          nextShared := Some (replicate 16 39 @ replicate 16 89),
          nextKeys := Some [replicate 16 39, replicate 16 89],
          nextIv := Some iv_s2, rand_Reader := []\<rparr>"

definition cli_wrote9 :: Conn where
  "cli_wrote9 =
     cli_got8\<lparr>conn := (conn cli_got8)\<lparr>out := out (conn cli_got8)
                 @ ex_Seal (replicate 16 89) (nonce 0) [0, 0, 1, 0]
                 @ ex_Seal (replicate 16 89) (nonce 1) [9]\<rparr>,
          write_half := Some \<lparr>aead = Some (replicate 16 89), seq = nonce 2\<rparr>\<rparr>"

lemma Read_cli_rnd_twice:
  "Read ex 10 (deliver (sent srv_rnd srv_proposed_twice) cli_rnd) = (cli_got7, Ok [7])"
  by (simp add: Read_def Read_loop_if Read_defs Rekey_defs ex_defs sent_def deliver_def
        srv_rnd_def srv_proposed_def srv_proposed_twice_def cli_rnd_def cli_answered_def
        cli_got7_def srv0_def cli0_def key_defs nonce_def)

lemma Read_cli_got7: "Read ex 10 cli_got7 = (cli_got8, Ok [8])"
  by (simp add: Read_def Read_loop_if Read_defs Rekey_defs ex_defs sent_def
        srv_proposed_def srv_proposed_twice_def cli_answered_def
        cli_got7_def cli_got8_def srv0_def cli0_def key_defs nonce_def)

lemma Write_cli_got8: "Write ex G0 [9] cli_got8 = Some (cli_wrote9, Ok 1)"
  by (simp add: Write_defs cli0_def cli_answered_def cli_got8_def cli_wrote9_def)
     (simp add: nonce_def ex_Seal_def)

text \<open>
  The server reads. The client's first answer, with the key \<open>a\<close>, opens under the old key
  10; but \<open>nextPrivKey\<close> and \<open>nextIv\<close> are by now \<open>s2\<close> and its salt, so the server derives
  its keys from \<open>s2\<close> and \<open>a\<close>, a pair that the client never combined: it takes the key
  88 for reading, sends FINALIZE_REKEY and commits. The header of the next record, the
  client's second answer, was sealed under 76 and does not open.
\<close>

definition srv_broken :: Conn where
  "srv_broken =
     srv_proposed_twice\<lparr>conn := (conn srv_proposed_twice)\<lparr>
               inp := [ex_Seal (replicate 16 76) (nonce 1) key_b
                       @ ex_Seal (replicate 16 89) (nonce 0) [0, 0, 1, 0]
                       @ ex_Seal (replicate 16 89) (nonce 1) [9]],
               out := out (conn srv_proposed_twice)
                 @ ex_Seal (replicate 16 5) (nonce 8) [0, 0, 0, 3]
                 @ ex_Seal (replicate 16 5) (nonce 9) []\<rparr>,
          read_half := Some \<lparr>aead = Some (replicate 16 88), seq = nonce 0\<rparr>,
          write_half := Some \<lparr>aead = Some (replicate 16 38), seq = nonce 0\<rparr>,
          shared := Some (replicate 16 38 @ replicate 16 88),
          privKey := Some key_s2, pubKey := Some key_s2, peerKey := Some key_a,
          nextPrivKey := None, nextIv := None\<rparr>"

lemma Read_srv_proposed_twice:
  "Read ex 10 (deliver (sent cli_rnd cli_wrote9) srv_proposed_twice)
   = (srv_broken, Err (ErrBadHeader ErrOpen))"
  by (simp add: Read_def Read_loop_if Read_defs Rekey_defs ex_defs sent_def deliver_def
        cli_rnd_def cli_answered_def cli_got8_def cli_wrote9_def srv_proposed_def
        srv_proposed_twice_def srv_broken_def srv0_def cli0_def key_defs nonce_def)

text \<open>
  Claim C1 at this input. After the handshake the server writes the bytes 7 and 8, each
  after \<open>RekeyNext\<close>; the client reads them and writes the byte 9, and the write succeeds
  with count 1; the carrier hands every byte over. The server's read does not return the
  byte 9: it fails with the bad-header error. The server is left reading with the key
  88 of a secret that only it holds, the client writing with the key 89 of another.
\<close>

theorem two_rekeys_break_roundtrip:
  "Negotiate ex G0 True
     (NewConn G0 (wire [PutUint32 32, take 32 rnd_c, PutUint32 16, drop 32 rnd_c])
        (rnd_s @ key_s1 @ iv_s1 @ key_s2 @ iv_s2) 0)
     = (srv_rnd, Ok ())
   \<and> Negotiate ex G0 False
       (NewConn G0 (wire [PutUint32 32, take 32 rnd_s]) (rnd_c @ key_a @ key_b) 0)
     = (cli_rnd, Ok ())
   \<and> Write ex G0 [7] (RekeyNext srv_rnd) = Some (srv_proposed, Ok 1)
   \<and> Write ex G0 [8] (RekeyNext srv_proposed) = Some (srv_proposed_twice, Ok 1)
   \<and> Read ex 10 (deliver (sent srv_rnd srv_proposed_twice) cli_rnd) = (cli_got7, Ok [7])
   \<and> Read ex 10 cli_got7 = (cli_got8, Ok [8])
   \<and> Write ex G0 [9] cli_got8 = Some (cli_wrote9, Ok 1)
   \<and> Read ex 10 (deliver (sent cli_rnd cli_wrote9) srv_proposed_twice)
       = (srv_broken, Err (ErrBadHeader ErrOpen))
   \<and> read_half srv_broken = Some \<lparr>aead = Some (replicate 16 88), seq = nonce 0\<rparr>
   \<and> write_half cli_wrote9 = Some \<lparr>aead = Some (replicate 16 89), seq = nonce 2\<rparr>
   \<and> shared srv_broken = Some (replicate 16 38 @ replicate 16 88)
   \<and> nextShared cli_wrote9 = Some (replicate 16 39 @ replicate 16 89)"
  using Negotiate_server_rnd Negotiate_client_rnd Write_srv_rnd Write_srv_proposed_RekeyNext
    Read_cli_rnd_twice Read_cli_got7 Write_cli_got8 Read_srv_proposed_twice
  by (simp add: srv_broken_def cli_wrote9_def cli_got8_def)

section \<open>The stream round trip\<close>

text \<open>
  What the proof needs of the primitives: opening what was sealed under the same key and
  nonce gives the plaintext back, a sealed text is longer than the plaintext by the
  tag, and the key stream for a 32-byte secret is at least 32 bytes long.
\<close>

definition aead_ok :: "prims \<Rightarrow> bool" where
  "aead_ok P =
     (\<forall>k n p. aead_Open P k n (aead_Seal P k n p) = Some p
            \<and> length (aead_Seal P k n p) = length p + Overhead)"

definition hkdf_ok :: "prims \<Rightarrow> bool" where
  "hkdf_ok P = (\<forall>sh iv. length sh = 32 \<longrightarrow> 32 \<le> length (hkdf P sh iv []))"

lemma aead_ok_Open: "aead_ok P \<Longrightarrow> aead_Open P k n (aead_Seal P k n p) = Some p"
  by (simp add: aead_ok_def)

lemma aead_ok_length: "aead_ok P \<Longrightarrow> length (aead_Seal P k n p) = length p + 16"
  by (simp add: aead_ok_def Overhead_def)

lemma take_segs_exact:
  "concat segs = g @ rest \<Longrightarrow>
     \<exists>r. take_segs (length g) segs = (g, r, False) \<and> concat r = rest"
proof (induction segs arbitrary: g)
  case Nil
  then show ?case by simp
next
  case (Cons s ss)
  show ?case
  proof (cases "length g = 0")
    case True
    with Cons.prems show ?thesis by simp
  next
    case False
    show ?thesis
    proof (cases "length s \<le> length g")
      case True
      from Cons.prems have e: "s @ concat ss = g @ rest" by simp
      from True e have g: "g = s @ drop (length s) g"
        by (metis append_eq_append_conv_if append_take_drop_id)
      with e have "s @ concat ss = s @ drop (length s) g @ rest"
        by (metis append.assoc)
      then have "concat ss = drop (length s) g @ rest" by simp
      from Cons.IH [OF this] obtain r where
        r: "take_segs (length (drop (length s) g)) ss = (drop (length s) g, r, False)"
           "concat r = rest"
        by blast
      from r(1) have "take_segs (length g - length s) ss = (drop (length s) g, r, False)"
        by simp
      with True False g r(2) show ?thesis by auto
    next
      case gt: False
      from Cons.prems have e: "s @ concat ss = g @ rest" by simp
      from gt e have "take (length g) s = g"
        by (metis append_eq_append_conv_if linorder_not_le order_less_imp_le append_take_drop_id
              append_eq_conv_conj)
      moreover from gt e have "drop (length g) s @ concat ss = rest"
        by (metis append_eq_append_conv_if linorder_not_le order_less_imp_le append.assoc
              append_take_drop_id same_append_eq)
      ultimately show ?thesis using gt False by simp
    qed
  qed
qed

lemma ReadFull_exact:
  assumes "concat (inp u) = g @ rest" and "n = length g"
  shows "\<exists>r. ReadFull n u = (u\<lparr>inp := r\<rparr>, g, None) \<and> concat r = rest"
proof -
  from take_segs_exact [OF assms(1)] obtain r where
    "take_segs (length g) (inp u) = (g, r, False)" "concat r = rest"
    by blast
  then show ?thesis using assms(2) by (auto simp add: ReadFull_def)
qed

lemma CopyN_exact:
  assumes "concat (inp u) = g @ rest" and "n = length g"
  shows "\<exists>r. CopyN n u = (u\<lparr>inp := r\<rparr>, g, None) \<and> concat r = rest"
proof -
  from take_segs_exact [OF assms(1)] obtain r where
    "take_segs (length g) (inp u) = (g, r, False)" "concat r = rest"
    by blast
  then show ?thesis using assms(2) by (auto simp add: CopyN_def)
qed

lemma half_Open_valid:
  assumes "aead_ok P" and "length s = NonceSize"
  shows "half_Open P (Some \<lparr>aead = Some k, seq = s\<rparr>) (aead_Seal P k s p) = Ok p"
  using assms by (simp add: half_Open_def aead_ok_Open)

lemma unat_wire_count:
  assumes "n < 2 ^ 24"
  shows "unat ((word_of_nat n :: uint32) + word_of_nat Overhead) = n + 16"
proof -
  have "(word_of_nat n :: uint32) + word_of_nat Overhead = word_of_nat (n + 16)"
    by (simp add: Overhead_def)
  moreover have "n + 16 < 2 ^ 32" using assms by simp
  then have "unat (word_of_nat (n + 16) :: uint32) = n + 16"
    using unat_of_nat [of "n + 16", where ?'a = 32] by simp
  ultimately show ?thesis by simp
qed

text \<open>One pass of \<open>Read\<close> over a DATA record that is next on the carrier.\<close>

lemma Read_pass_data:
  assumes ok: "aead_ok P"
    and rh: "read_half c = Some \<lparr>aead = Some k, seq = s\<rparr>" and ls: "length s = NonceSize"
    and hb: "length (headerBuf c) = 4 + Overhead"
    and wh: "half_Overhead (write_half c) = Some Overhead"
    and rb: "readBuf c = []"
    and inp: "concat (inp (conn c)) =
                aead_Seal P k s (PutUint32 (Write_header (length ch)))
                @ aead_Seal P k (inc_le s) ch @ tail"
    and ch: "ch \<noteq> []" "length ch < 2 ^ 24" and len: "0 < len"
  shows "\<exists>r. Read_pass P len c =
           (c\<lparr>conn := (conn c)\<lparr>inp := r\<rparr>,
              read_half := Some \<lparr>aead = Some k, seq = inc_le (inc_le s)\<rparr>,
              readBuf := drop len ch\<rparr>, Return (Ok (take len ch)))
         \<and> concat r = tail"
proof -
  let ?h = "aead_Seal P k s (PutUint32 (Write_header (length ch)))"
  let ?p = "aead_Seal P k (inc_le s) ch"
  have lh: "length ?h = length (headerBuf c)"
    using ok hb by (simp add: aead_ok_length Overhead_def)
  from ReadFull_exact [OF inp lh [symmetric]] obtain r1 where
    r1: "ReadFull (length (headerBuf c)) (conn c) = ((conn c)\<lparr>inp := r1\<rparr>, ?h, None)"
        "concat r1 = ?p @ tail"
    by blast
  have o1: "half_Open P (read_half c) ?h = Ok (PutUint32 (Write_header (length ch)))"
    unfolding rh using ok ls by (rule half_Open_valid)
  have hd: "Read_header (Write_header (length ch)) = (pData, word_of_nat (length ch))"
    using ch(2) by (rule Read_header_Write_header)
  let ?c1 = "c\<lparr>conn := (conn c)\<lparr>inp := r1\<rparr>,
               read_half := Some \<lparr>aead = Some k, seq = inc_le s\<rparr>\<rparr>"
  have pass: "Read_pass P len c =
      (case Read_data P len (word_of_nat (length ch)) ?c1 of (c2, r) \<Rightarrow> (c2, Return r))"
    unfolding Read_pass_def using r1(1) lh o1 hd
    by (simp add: rh incSeq_def incSeq_loop_0)
  have wc: "unat ((word_of_nat (length ch) :: uint32) + word_of_nat Overhead) = length ?p"
    using unat_wire_count [OF ch(2)] ok by (simp add: aead_ok_length)
  have "concat (inp ((conn c)\<lparr>inp := r1\<rparr>)) = ?p @ tail" using r1(2) by simp
  from CopyN_exact [OF this wc] obtain r2 where
    r2: "CopyN (unat ((word_of_nat (length ch) :: uint32) + word_of_nat Overhead))
           ((conn c)\<lparr>inp := r1\<rparr>) = ((conn c)\<lparr>inp := r1\<rparr>\<lparr>inp := r2\<rparr>, ?p, None)"
        "concat r2 = tail"
    by blast
  have ls': "length (inc_le s) = NonceSize" using ls by simp
  have o2: "half_Open P (Some \<lparr>aead = Some k, seq = inc_le s\<rparr>) ?p = Ok ch"
    using ok ls' by (rule half_Open_valid)
  have lp: "\<not> length ?p < length ch" using ok by (simp add: aead_ok_length)
  have un: "unat (word_of_nat (length ch) :: uint32) = length ch"
    using ch(2) by (rule unat_word_of_nat_24)
  have "Read_data P len (word_of_nat (length ch)) ?c1 =
      (c\<lparr>conn := (conn c)\<lparr>inp := r2\<rparr>,
         read_half := Some \<lparr>aead = Some k, seq = inc_le (inc_le s)\<rparr>,
         readBuf := drop len ch\<rparr>, Ok (take len ch))"
    unfolding Read_data_def using wh r2(1) o2 lp ch(1)
    by (simp add: rb un Let_def Buffer_Read_def incSeq_def incSeq_loop_0)
  with pass r2(2) show ?thesis by auto
qed

text \<open>
  The reading side of the claim: the peer calls \<open>Read\<close> again and again, each time with a
  buffer of \<open>sz i\<close> bytes where \<open>i\<close> is the number of bytes it has so far, until it has
  \<open>n\<close> bytes. Nothing bounds the number of calls: not returning is the value \<open>None\<close>.
\<close>

partial_function (option) read_until ::
    "prims \<Rightarrow> (nat \<Rightarrow> nat) \<Rightarrow> nat \<Rightarrow> Conn \<Rightarrow> bytes \<Rightarrow> (Conn \<times> bytes res) option" where
  "read_until P sz n c acc =
     (if length acc < n then
        (case Read P (sz (length acc)) c of
           (c', Ok got) \<Rightarrow> read_until P sz n c' (acc @ got)
         | (c', Err e) \<Rightarrow> Some (c', Err e)
         | (c', Panic) \<Rightarrow> Some (c', Panic))
      else Some (c, Ok acc))"

declare read_until.simps [code]

lemma read_until_done: "n \<le> length acc \<Longrightarrow> read_until P sz n c acc = Some (c, Ok acc)"
  by (subst read_until.simps) simp

lemma read_until_step:
  "length acc < n \<Longrightarrow> Read P (sz (length acc)) c = (c', Ok got)
     \<Longrightarrow> read_until P sz n c acc = read_until P sz n c' (acc @ got)"
  by (subst read_until.simps) simp

lemma Read_empty_buffer:
  assumes "readBuf c = []" and "0 < len"
  shows "Read P len c = Read_loop P len c"
proof -
  from assms(1) have e: "c\<lparr>readBuf := []\<rparr> = c" by simp
  have "Read P len c = Read_loop P len (c\<lparr>readBuf := []\<rparr>)"
    using assms by (simp add: Read_def Buffer_Read_def)
  then show ?thesis by (simp only: e)
qed

text \<open>Bytes waiting in the buffer are handed out before anything is read from the carrier.\<close>

lemma read_until_drain:
  assumes "\<forall>i. 0 < sz i"
  shows "readBuf c = rb \<Longrightarrow> length acc + length rb \<le> n
     \<Longrightarrow> read_until P sz n c acc = read_until P sz n (c\<lparr>readBuf := []\<rparr>) (acc @ rb)"
proof (induction "length rb" arbitrary: rb c acc rule: less_induct)
  case less
  show ?case
  proof (cases "rb = []")
    case True
    with less.prems(1) have "c\<lparr>readBuf := []\<rparr> = c" by simp
    with True show ?thesis by simp
  next
    case False
    let ?m = "sz (length acc)"
    have m: "0 < ?m" using assms by simp
    have lt: "length acc < n" using False less.prems(2) by (cases rb) auto
    have rd: "Read P ?m c = (c\<lparr>readBuf := drop ?m rb\<rparr>, Ok (take ?m rb))"
      using False m less.prems(1) by (simp add: Read_def Buffer_Read_def)
    have d: "length (drop ?m rb) < length rb" using False m by simp
    have "read_until P sz n c acc
        = read_until P sz n (c\<lparr>readBuf := drop ?m rb\<rparr>) (acc @ take ?m rb)"
      using lt rd by (rule read_until_step)
    also have "\<dots> = read_until P sz n (c\<lparr>readBuf := drop ?m rb\<rparr>\<lparr>readBuf := []\<rparr>)
                       ((acc @ take ?m rb) @ drop ?m rb)"
      using less.prems(2) by (intro less.hyps [OF d]) simp_all
    finally show ?thesis by simp
  qed
qed

text \<open>Reading a run of DATA records: the bytes of the chunks come out in order.\<close>

lemma read_until_chunks:
  assumes ok: "aead_ok P" and sz: "\<forall>i. 0 < sz i"
  shows "read_half c = Some \<lparr>aead = Some k, seq = s\<rparr> \<Longrightarrow> length s = NonceSize
     \<Longrightarrow> length (headerBuf c) = 4 + Overhead
     \<Longrightarrow> half_Overhead (write_half c) = Some Overhead
     \<Longrightarrow> readBuf c = []
     \<Longrightarrow> concat (inp (conn c)) = seal_chunks P k s chs @ tail
     \<Longrightarrow> \<forall>ch \<in> set chs. ch \<noteq> [] \<and> length ch < 2 ^ 24
     \<Longrightarrow> n = length acc + length (concat chs)
     \<Longrightarrow> \<exists>r. read_until P sz n c acc =
            Some (c\<lparr>conn := (conn c)\<lparr>inp := r\<rparr>,
                    read_half := Some \<lparr>aead = Some k, seq = adv (2 * length chs) s\<rparr>\<rparr>,
                  Ok (acc @ concat chs))
          \<and> concat r = tail"
proof (induction chs arbitrary: c s acc)
  case Nil
  have "c\<lparr>conn := (conn c)\<lparr>inp := inp (conn c)\<rparr>,
          read_half := Some \<lparr>aead = Some k, seq = s\<rparr>\<rparr> = c"
    using Nil.prems(1) by simp
  moreover have "read_until P sz n c acc = Some (c, Ok acc)"
    using Nil.prems(8) by (intro read_until_done) simp
  ultimately show ?case
    using Nil.prems(6) by (intro exI [of _ "inp (conn c)"]) simp
next
  case (Cons ch chs)
  let ?m = "sz (length acc)"
  have m: "0 < ?m" using sz by simp
  have ch: "ch \<noteq> []" "length ch < 2 ^ 24" using Cons.prems(7) by simp_all
  have lt: "length acc < n" using ch(1) Cons.prems(8) by (cases ch) auto
  have inp: "concat (inp (conn c)) =
      aead_Seal P k s (PutUint32 (Write_header (length ch)))
      @ aead_Seal P k (inc_le s) ch @ (seal_chunks P k (inc_le (inc_le s)) chs @ tail)"
    using Cons.prems(6) by simp
  from Read_pass_data [OF ok Cons.prems(1,2,3,4,5) inp ch m] obtain r1 where
    pass: "Read_pass P ?m c =
           (c\<lparr>conn := (conn c)\<lparr>inp := r1\<rparr>,
              read_half := Some \<lparr>aead = Some k, seq = inc_le (inc_le s)\<rparr>,
              readBuf := drop ?m ch\<rparr>, Return (Ok (take ?m ch)))"
    and r1: "concat r1 = seal_chunks P k (inc_le (inc_le s)) chs @ tail"
    by blast
  let ?c1 = "c\<lparr>conn := (conn c)\<lparr>inp := r1\<rparr>,
              read_half := Some \<lparr>aead = Some k, seq = inc_le (inc_le s)\<rparr>,
              readBuf := drop ?m ch\<rparr>"
  let ?c2 = "c\<lparr>conn := (conn c)\<lparr>inp := r1\<rparr>,
              read_half := Some \<lparr>aead = Some k, seq = inc_le (inc_le s)\<rparr>\<rparr>"
  have c2: "?c1\<lparr>readBuf := []\<rparr> = ?c2" using Cons.prems(5) by simp
  have rd: "Read P ?m c = (?c1, Ok (take ?m ch))"
    using Read_loop_Return [OF pass] Read_empty_buffer [OF Cons.prems(5) m, of P] by simp
  have "read_until P sz n c acc = read_until P sz n ?c1 (acc @ take ?m ch)"
    using lt rd by (rule read_until_step)
  also have "\<dots> = read_until P sz n (?c1\<lparr>readBuf := []\<rparr>) ((acc @ take ?m ch) @ drop ?m ch)"
    using Cons.prems(8) by (intro read_until_drain [OF sz]) simp_all
  also have "\<dots> = read_until P sz n ?c2 (acc @ ch)"
    using c2 by simp
  finally have step: "read_until P sz n c acc = read_until P sz n ?c2 (acc @ ch)" .
  have "\<exists>r. read_until P sz n ?c2 (acc @ ch) =
            Some (?c2\<lparr>conn := (conn ?c2)\<lparr>inp := r\<rparr>,
                    read_half := Some \<lparr>aead = Some k,
                       seq = adv (2 * length chs) (inc_le (inc_le s))\<rparr>\<rparr>,
                  Ok ((acc @ ch) @ concat chs))
          \<and> concat r = tail"
    using Cons.prems(2,3,4,5,7,8) r1 by (intro Cons.IH) simp_all
  then obtain r where
    r: "read_until P sz n ?c2 (acc @ ch) =
            Some (?c2\<lparr>conn := (conn ?c2)\<lparr>inp := r\<rparr>,
                    read_half := Some \<lparr>aead = Some k,
                       seq = adv (2 * length chs) (inc_le (inc_le s))\<rparr>\<rparr>,
                  Ok ((acc @ ch) @ concat chs))"
       "concat r = tail"
    by blast
  have "adv (2 * length (ch # chs)) s = adv (2 * length chs) (inc_le (inc_le s))"
    using adv_Suc2 [of "length chs" s] by simp
  with step r show ?case
    by (intro exI [of _ r]) simp
qed

text \<open>A record sent with success on a usable write half.\<close>

lemma sendBuffer_Ok:
  assumes wh: "write_half c = Some \<lparr>aead = Some k, seq = s\<rparr>" and ls: "length s = NonceSize"
    and ok: "sendBuffer P cmd buf c = (c', Ok x)"
  shows "\<exists>u. c' = c\<lparr>conn := u,
                    write_half := Some \<lparr>aead = Some k, seq = inc_le (inc_le s)\<rparr>\<rparr>
           \<and> out u = out (conn c)
                 @ aead_Seal P k s (PutUint32 (sendBuffer_header cmd (length buf)))
                 @ aead_Seal P k (inc_le s) buf
           \<and> inp u = inp (conn c)"
proof -
  let ?h = "aead_Seal P k s (PutUint32 (sendBuffer_header cmd (length buf)))"
  let ?p = "aead_Seal P k (inc_le s) buf"
  let ?c1 = "c\<lparr>write_half := Some \<lparr>aead = Some k, seq = inc_le s\<rparr>\<rparr>"
  have s1: "write_Seal P (PutUint32 (sendBuffer_header cmd (length buf))) c = Some (?h, ?c1)"
    using wh ls by (rule write_Seal_valid)
  obtain u e where w1: "Write_checked ?h (conn ?c1) = (u, e)"
    by (cases "Write_checked ?h (conn ?c1)") auto
  have e: "e = None"
    using ok s1 w1 unfolding sendBuffer_def by (cases e) (auto simp add: Let_def)
  let ?c2 = "?c1\<lparr>conn := u\<rparr>"
  let ?c3 = "?c2\<lparr>write_half := Some \<lparr>aead = Some k, seq = inc_le (inc_le s)\<rparr>\<rparr>"
  have s2: "write_Seal P buf ?c2 = Some (?p, ?c3)"
    using ls by (intro write_Seal_valid) simp_all
  obtain u2 e2 where w2: "Write_checked ?p (conn ?c3) = (u2, e2)"
    by (cases "Write_checked ?p (conn ?c3)") auto
  have e2: "e2 = None"
    using ok s1 w1 e s2 w2 unfolding sendBuffer_def by (cases e2) (auto simp add: Let_def)
  have c': "c' = ?c3\<lparr>conn := u2\<rparr>"
    using ok s1 w1 e s2 w2 e2 unfolding sendBuffer_def by (simp add: Let_def)
  have o1: "out u = out (conn c) @ ?h" "inp u = inp (conn c)"
    using Write_checked_None [OF w1 [unfolded e]] by simp_all
  have o2: "out u2 = out (conn c) @ ?h @ ?p" "inp u2 = inp (conn c)"
    using Write_checked_None [OF w2 [unfolded e2]] o1 by simp_all
  from c' o2 show ?thesis by (intro exI [of _ u2]) simp
qed

lemma sendBuffer_unlimited:
  assumes wh: "write_half c = Some \<lparr>aead = Some k, seq = s\<rparr>" and ls: "length s = NonceSize"
    and room: "out_room (conn c) = None"
  shows "sendBuffer P cmd buf c =
     (c\<lparr>conn := (conn c)\<lparr>out := out (conn c)
                 @ aead_Seal P k s (PutUint32 (sendBuffer_header cmd (length buf)))
                 @ aead_Seal P k (inc_le s) buf\<rparr>,
        write_half := Some \<lparr>aead = Some k, seq = inc_le (inc_le s)\<rparr>\<rparr>, Ok ())"
proof -
  let ?h = "aead_Seal P k s (PutUint32 (sendBuffer_header cmd (length buf)))"
  let ?p = "aead_Seal P k (inc_le s) buf"
  let ?c1 = "c\<lparr>write_half := Some \<lparr>aead = Some k, seq = inc_le s\<rparr>\<rparr>"
  have s1: "write_Seal P (PutUint32 (sendBuffer_header cmd (length buf))) c = Some (?h, ?c1)"
    using wh ls by (rule write_Seal_valid)
  have w1: "Write_checked ?h (conn ?c1) = ((conn c)\<lparr>out := out (conn c) @ ?h\<rparr>, None)"
    using Write_checked_unlimited [OF room, of ?h] by simp
  let ?c2 = "?c1\<lparr>conn := (conn c)\<lparr>out := out (conn c) @ ?h\<rparr>\<rparr>"
  let ?c3 = "?c2\<lparr>write_half := Some \<lparr>aead = Some k, seq = inc_le (inc_le s)\<rparr>\<rparr>"
  have s2: "write_Seal P buf ?c2 = Some (?p, ?c3)"
    using ls by (intro write_Seal_valid) simp_all
  have w2: "Write_checked ?p (conn ?c3) = ((conn c)\<lparr>out := out (conn c) @ ?h @ ?p\<rparr>, None)"
    using room by (simp add: Write_checked_unlimited)
  show ?thesis
    unfolding sendBuffer_def using s1 w1 s2 w2 by (simp add: Let_def)
qed

text \<open>A rekey started with success: one START_REKEY record of 48 bytes goes out.\<close>

lemma startRekey_Ok:
  assumes wh: "write_half c = Some \<lparr>aead = Some k, seq = s\<rparr>" and ls: "length s = NonceSize"
    and ok: "startRekey P G c = (c', Ok x)"
  shows "\<exists>payload. length payload = 48
           \<and> out (conn c') = out (conn c)
                 @ aead_Seal P k s (PutUint32 (sendBuffer_header pStartRekey 48))
                 @ aead_Seal P k (inc_le s) payload
           \<and> write_half c' = Some \<lparr>aead = Some k, seq = inc_le (inc_le s)\<rparr>
           \<and> writeBuf c' = writeBuf c"
proof -
  have "\<exists>c0 pub iv. sendBuffer P pStartRekey (pub @ iv) c0 = (c', Ok x)
      \<and> write_half c0 = write_half c \<and> conn c0 = conn c \<and> writeBuf c0 = writeBuf c
      \<and> length pub = 32 \<and> length iv = 16"
  proof -
    obtain rnd g where g: "GenerateKey P (rand_Reader c) = (rnd, g)"
      by (cases "GenerateKey P (rand_Reader c)") auto
    with ok obtain pub priv where g': "g = Ok (pub, priv)"
      unfolding startRekey_def Let_def by (cases g) auto
    from g g' have lp: "length pub = 32"
      by (auto simp add: GenerateKey_def arr32_def split: prod.splits option.splits)
    obtain rnd' iv e where r: "rand_ReadFull BlockSize rnd = (rnd', iv, e)"
      by (cases "rand_ReadFull BlockSize rnd") auto
    with ok g g' have e: "e = None" and l: "length iv = BlockSize"
      unfolding startRekey_def Let_def by (cases e; auto split: if_splits)+
    let ?c0 = "c\<lparr>rekeyLeft := RekeyAfterBytes G, rekeyAfter := now c + KeyValidityPeriod G,
                 rand_Reader := rnd, nextPubKey := Some pub, nextPrivKey := Some priv,
                 rand_Reader := rnd', nextIv := Some iv\<rparr>"
    from ok g g' r e l have "sendBuffer P pStartRekey (pub @ iv) ?c0 = (c', Ok x)"
      unfolding startRekey_def Let_def by simp
    moreover have "write_half ?c0 = write_half c" "conn ?c0 = conn c" "writeBuf ?c0 = writeBuf c"
      by simp_all
    ultimately show ?thesis using lp l unfolding BlockSize_def by blast
  qed
  then obtain c0 pub iv where sb: "sendBuffer P pStartRekey (pub @ iv) c0 = (c', Ok x)"
    and c0: "write_half c0 = write_half c" "conn c0 = conn c" "writeBuf c0 = writeBuf c"
    and len: "length pub = 32" "length iv = 16"
    by blast
  have wh0: "write_half c0 = Some \<lparr>aead = Some k, seq = s\<rparr>" using c0(1) wh by simp
  from sendBuffer_Ok [OF wh0 ls sb] obtain u where
    "c' = c0\<lparr>conn := u, write_half := Some \<lparr>aead = Some k, seq = inc_le (inc_le s)\<rparr>\<rparr>"
    "out u = out (conn c0)
                 @ aead_Seal P k s (PutUint32 (sendBuffer_header pStartRekey (length (pub @ iv))))
                 @ aead_Seal P k (inc_le s) (pub @ iv)"
    by auto
  with len c0 show ?thesis by (intro exI [of _ "pub @ iv"]) simp
qed

lemma length_arr32 [simp]: "length (arr32 xs) = 32"
  by (simp add: arr32_def)

lemma makeKeys_hkdf_ok:
  assumes "hkdf_ok P" and "length sh = 32"
  shows "makeKeys P sh iv [] =
     Ok [take 16 (hkdf P sh iv []), take 16 (drop 16 (hkdf P sh iv []))]"
proof -
  from assms have "32 \<le> length (hkdf P sh iv [])" by (simp add: hkdf_ok_def)
  then show ?thesis by (simp add: makeKeys_def BlockSize_def Let_def)
qed

lemma readAndCheck_exact:
  assumes ok: "aead_ok P"
    and rh: "read_half c = Some \<lparr>aead = Some k, seq = s\<rparr>" and ls: "length s = NonceSize"
    and inp: "concat (inp (conn c)) = aead_Seal P k s payload @ tail"
    and cnt: "unat cnt = length payload"
  shows "\<exists>r. readAndCheck P cnt c =
           (c\<lparr>conn := (conn c)\<lparr>inp := r\<rparr>,
              read_half := Some \<lparr>aead = Some k, seq = inc_le s\<rparr>\<rparr>, Ok payload)
         \<and> concat r = tail"
proof -
  have l: "unat cnt + Overhead = length (aead_Seal P k s payload)"
    using ok cnt by (simp add: aead_ok_length Overhead_def)
  from ReadFull_exact [OF inp l] obtain r where
    r: "ReadFull (unat cnt + Overhead) (conn c) = ((conn c)\<lparr>inp := r\<rparr>, aead_Seal P k s payload, None)"
       "concat r = tail"
    by blast
  have o: "half_Open P (read_half c) (aead_Seal P k s payload) = Ok payload"
    unfolding rh using ok ls by (rule half_Open_valid)
  have "readAndCheck P cnt c =
           (c\<lparr>conn := (conn c)\<lparr>inp := r\<rparr>,
              read_half := Some \<lparr>aead = Some k, seq = inc_le s\<rparr>\<rparr>, Ok payload)"
    unfolding readAndCheck_def using r(1) l o
    by (simp add: rh half_Overhead_def Let_def)
  with r(2) show ?thesis by blast
qed

text \<open>The client's answer to START_REKEY goes through when it has 32 random bytes, a usable
  write half and a carrier that takes the bytes.\<close>

lemma sendClientRekey_unlimited:
  assumes hk: "hkdf_ok P"
    and wh: "write_half c = Some \<lparr>aead = Some kw, seq = sw\<rparr>" and ls: "length sw = NonceSize"
    and room: "out_room (conn c) = None"
    and rnd: "32 \<le> length (rand_Reader c)"
    and pk: "nextPeerKey c = Some pk"
  shows "\<exists>c'. sendClientRekey P c = (c', Ok ())
     \<and> inp (conn c') = inp (conn c) \<and> read_half c' = read_half c
     \<and> readBuf c' = readBuf c \<and> headerBuf c' = headerBuf c
     \<and> half_Overhead (write_half c') = Some Overhead"
proof -
  let ?priv = "take 32 (rand_Reader c)"
  let ?pub = "arr32 (ScalarBaseMult P ?priv)"
  have g: "GenerateKey P (rand_Reader c) = (drop 32 (rand_Reader c), Ok (?pub, ?priv))"
    using rnd by (simp add: GenerateKey_def rand_ReadFull_def)
  let ?c0 = "c\<lparr>rand_Reader := drop 32 (rand_Reader c), nextPubKey := Some ?pub,
               nextPrivKey := Some ?priv\<rparr>"
  let ?out = "out (conn c)
       @ aead_Seal P kw sw (PutUint32 (sendBuffer_header pClientKeyUpdate (length ?pub)))
       @ aead_Seal P kw (inc_le sw) ?pub"
  let ?c1 = "?c0\<lparr>conn := (conn ?c0)\<lparr>out := ?out\<rparr>,
                 write_half := Some \<lparr>aead = Some kw, seq = inc_le (inc_le sw)\<rparr>\<rparr>"
  have sb: "sendBuffer P pClientKeyUpdate ?pub ?c0 = (?c1, Ok ())"
    using wh ls room by (subst sendBuffer_unlimited [where k = kw and s = sw]) simp_all
  let ?sh = "arr32 (ScalarMult P ?priv pk)"
  let ?ks = "[take 16 (hkdf P ?sh (iv_bytes (nextIv c)) []),
              take 16 (drop 16 (hkdf P ?sh (iv_bytes (nextIv c)) []))]"
  have mk: "makeKeys P ?sh (iv_bytes (nextIv c)) [] = Ok ?ks"
    using hk by (rule makeKeys_hkdf_ok) simp
  have "32 \<le> length (hkdf P ?sh (iv_bytes (nextIv c)) [])"
    using hk by (simp add: hkdf_ok_def)
  then have l2: "length (take 16 (drop 16 (hkdf P ?sh (iv_bytes (nextIv c)) []))) = 16"
    by simp
  let ?c2 = "?c1\<lparr>nextShared := Some ?sh, nextKeys := Some ?ks\<rparr>"
  have dn: "derive_next P ?c1 = (?c2, Ok ())"
    using pk mk by (simp add: derive_next_def Let_def)
  have nk: "nextKey 1 ?c2 = Some (take 16 (drop 16 (hkdf P ?sh (iv_bytes (nextIv c)) [])))"
    by (simp add: nextKey_def)
  let ?c3 = "?c2\<lparr>write_half := Some \<lparr>aead = Some (take 16 (drop 16 (hkdf P ?sh (iv_bytes (nextIv c)) []))),
                                     seq = replicate NonceSize 0\<rparr>\<rparr>"
  have sw: "setup_write (take 16 (drop 16 (hkdf P ?sh (iv_bytes (nextIv c)) [])))
              (iv_bytes (nextIv ?c2)) ?c2 = Some ?c3"
    using l2 by (simp add: setup_write_def half_setup_def)
  have "sendClientRekey P c = (?c3, Ok ())"
    unfolding sendClientRekey_def using g sb dn nk sw by simp
  moreover have "inp (conn ?c3) = inp (conn c)" "read_half ?c3 = read_half c"
    "readBuf ?c3 = readBuf c" "headerBuf ?c3 = headerBuf c"
    "half_Overhead (write_half ?c3) = Some Overhead"
    by (simp_all add: half_Overhead_def)
  ultimately show ?thesis by blast
qed

text \<open>One pass of \<open>Read\<close> over a START_REKEY record that is next on the carrier: the record
  is consumed, the answer sent, and the pass ends in \<^verbatim>\<open>goto retry\<close>.\<close>

lemma Read_pass_start_rekey:
  assumes ok: "aead_ok P" and hk: "hkdf_ok P"
    and rh: "read_half c = Some \<lparr>aead = Some k, seq = s\<rparr>" and ls: "length s = NonceSize"
    and hb: "length (headerBuf c) = 4 + Overhead"
    and wh: "write_half c = Some \<lparr>aead = Some kw, seq = sw\<rparr>" and lsw: "length sw = NonceSize"
    and room: "out_room (conn c) = None"
    and rnd: "32 \<le> length (rand_Reader c)"
    and inp: "concat (inp (conn c)) =
                aead_Seal P k s (PutUint32 (sendBuffer_header pStartRekey 48))
                @ aead_Seal P k (inc_le s) payload @ tail"
    and lp: "length payload = 48"
  shows "\<exists>c'. Read_pass P len c = (c', Retry)
     \<and> read_half c' = Some \<lparr>aead = Some k, seq = inc_le (inc_le s)\<rparr>
     \<and> concat (inp (conn c')) = tail
     \<and> readBuf c' = readBuf c \<and> headerBuf c' = headerBuf c
     \<and> half_Overhead (write_half c') = Some Overhead"
proof -
  let ?h = "aead_Seal P k s (PutUint32 (sendBuffer_header pStartRekey 48))"
  let ?p = "aead_Seal P k (inc_le s) payload"
  have lh: "length ?h = length (headerBuf c)"
    using ok hb by (simp add: aead_ok_length Overhead_def)
  from ReadFull_exact [OF inp lh [symmetric]] obtain r1 where
    r1: "ReadFull (length (headerBuf c)) (conn c) = ((conn c)\<lparr>inp := r1\<rparr>, ?h, None)"
        "concat r1 = ?p @ tail"
    by blast
  have o1: "half_Open P (read_half c) ?h = Ok (PutUint32 (sendBuffer_header pStartRekey 48))"
    unfolding rh using ok ls by (rule half_Open_valid)
  have hd: "Read_header (sendBuffer_header pStartRekey 48) = (pStartRekey, word_of_nat 48)"
    by (rule Read_header_sendBuffer_header) (simp_all add: pStartRekey_def)
  let ?c1 = "c\<lparr>conn := (conn c)\<lparr>inp := r1\<rparr>,
               read_half := Some \<lparr>aead = Some k, seq = inc_le s\<rparr>\<rparr>"
  have pass: "Read_pass P len c = rekey_pass (readRekey P 48 ?c1)"
    unfolding Read_pass_def using r1(1) lh o1 hd
    by (simp add: rh incSeq_def incSeq_loop_0 pData_def pStartRekey_def)
  have i1: "concat (inp (conn ?c1)) = ?p @ tail" using r1(2) by simp
  have u48: "unat (48 :: uint32) = length payload" using lp by simp
  have "\<exists>r. readAndCheck P 48 ?c1 =
           (?c1\<lparr>conn := (conn ?c1)\<lparr>inp := r\<rparr>,
               read_half := Some \<lparr>aead = Some k, seq = inc_le (inc_le s)\<rparr>\<rparr>, Ok payload)
         \<and> concat r = tail"
    using ls by (intro readAndCheck_exact [OF ok _ _ i1 u48]) simp_all
  then obtain r2 where
    rc: "readAndCheck P 48 ?c1 =
           (?c1\<lparr>conn := (conn ?c1)\<lparr>inp := r2\<rparr>,
               read_half := Some \<lparr>aead = Some k, seq = inc_le (inc_le s)\<rparr>\<rparr>, Ok payload)"
        "concat r2 = tail"
    by blast
  let ?c2 = "?c1\<lparr>conn := (conn ?c1)\<lparr>inp := r2\<rparr>,
               read_half := Some \<lparr>aead = Some k, seq = inc_le (inc_le s)\<rparr>\<rparr>"
  let ?c3 = "?c2\<lparr>nextPeerKey := Some (take cKeySize payload),
                 nextIv := Some (drop cKeySize payload)\<rparr>"
  have rr: "readRekey P 48 ?c1 = sendClientRekey P ?c3"
    unfolding readRekey_def using rc(1) lp by (simp add: cKeySize_def BlockSize_def)
  have "\<exists>c'. sendClientRekey P ?c3 = (c', Ok ())
     \<and> inp (conn c') = inp (conn ?c3) \<and> read_half c' = read_half ?c3
     \<and> readBuf c' = readBuf ?c3 \<and> headerBuf c' = headerBuf ?c3
     \<and> half_Overhead (write_half c') = Some Overhead"
    using wh lsw room rnd
    by (intro sendClientRekey_unlimited [OF hk, where kw = kw and sw = sw]) simp_all
  then obtain c' where c': "sendClientRekey P ?c3 = (c', Ok ())"
    "inp (conn c') = inp (conn ?c3)" "read_half c' = read_half ?c3"
    "readBuf c' = readBuf ?c3" "headerBuf c' = headerBuf ?c3"
    "half_Overhead (write_half c') = Some Overhead"
    by blast
  have "Read_pass P len c = (c', Retry)"
    using pass rr c'(1) by (simp add: rekey_pass_def)
  with c'(2-6) rc(2) show ?thesis by (intro exI [of _ c']) simp
qed

text \<open>The condition under which \<open>Write\<close> starts a rekey.\<close>

definition rekey_due :: "Conn \<Rightarrow> bool" where
  "rekey_due c =
     (server c \<and> nextPeerKey c = None \<and> (sint (rekeyLeft c) \<le> 0 \<or> rekeyAfter c < now c))"

lemma Write_Ok_rekey:
  assumes "rekey_due c" and "Write P G buf c = Some (c', Ok n)"
  shows "\<exists>c1. startRekey P G c = (c1, Ok ()) \<and> Write_loop P buf c1 = Some (c', Ok ())"
proof -
  obtain c1 r1 where s: "startRekey P G c = (c1, r1)"
    by (cases "startRekey P G c") auto
  with assms show ?thesis
    by (cases r1) (auto simp add: Write_def rekey_due_def split: option.splits prod.splits res.splits)
qed

lemma Write_Ok_no_rekey:
  assumes "\<not> rekey_due c" and "Write P G buf c = Some (c', Ok n)"
  shows "\<exists>c1. Write_loop P buf c1 = Some (c', Ok ())
     \<and> write_half c1 = write_half c \<and> conn c1 = conn c \<and> writeBuf c1 = writeBuf c"
proof (cases "server c \<and> nextPeerKey c = None")
  case True
  with assms have "Write_loop P buf (c\<lparr>rekeyLeft := rekeyLeft c - word_of_nat (length buf)\<rparr>)
      = Some (c', Ok ())"
    by (auto simp add: Write_def rekey_due_def split: option.splits prod.splits res.splits if_splits)
  then show ?thesis
    by (intro exI [of _ "c\<lparr>rekeyLeft := rekeyLeft c - word_of_nat (length buf)\<rparr>"]) simp
next
  case False
  with assms have "Write_loop P buf c = Some (c', Ok ())"
    by (auto simp add: Write_def split: option.splits prod.splits res.splits if_splits)
  then show ?thesis by (intro exI [of _ c]) simp
qed

lemma read_until_same_Read:
  assumes "length acc < n" and "Read P (sz (length acc)) c = Read P (sz (length acc)) c'"
  shows "read_until P sz n c acc = read_until P sz n c' acc"
  using assms
  by (subst read_until.simps, subst (2) read_until.simps) simp

lemma chunks_small:
  assumes "L < 2 ^ 24"
  shows "\<forall>ch \<in> set (chunks L buf). ch \<noteq> [] \<and> length ch < 2 ^ 24"
proof
  fix ch
  assume "ch \<in> set (chunks L buf)"
  from chunks_bound [OF this] assms show "ch \<noteq> [] \<and> length ch < 2 ^ 24" by simp
qed

text \<open>
  A read into an empty buffer does not stop at plaintext that is still in the buffer:
  it copies nothing, goes on to the next record on the carrier and, for a DATA record,
  opens the buffered plaintext together with the bytes of the new record.
\<close>

lemma Read_into_empty:
  "readBuf c \<noteq> [] \<Longrightarrow> Read P 0 c = Read_loop P 0 c"
  by (simp add: Read_def Buffer_Read_def)

text \<open>
  Where the round trip holds: from a pair of endpoints in step, with nothing else
  pending, for one write that starts at most one rekey, and for reads into buffers that
  are not empty. Given primitives that open what they seal, let one endpoint, with a
  usable write half and a write buffer of at least one and fewer than \<open>2 ^ 24\<close> bytes,
  write \<open>B\<close> with success, and let the peer be in the state a handshake leaves it in
  relative to the writer: its read half is the writer's write half (same key, same
  nonce), its buffer is empty, its header buffer has 4 bytes plus the tag, it has a
  usable write half, and what is pending on its carrier is exactly what the write
  appended to the writer's carrier. If the write started a rekey, let the peer be able
  to answer it (32 random bytes, a carrier that takes the answer, a key stream long
  enough). Then the write returned \<open>length B\<close>, and the peer's loop of reads, whatever
  positive buffer size it uses in each call, returns exactly \<open>B\<close>; when \<open>B\<close> is not
  empty the peer ends with its read half again equal to the writer's write half, an
  empty buffer and nothing pending. The writer may be client or server.
\<close>

lemma stream_roundtrip:
  assumes ok: "aead_ok P" and hk: "hkdf_ok P"
    and wh: "write_half wc = Some \<lparr>aead = Some k, seq = s\<rparr>" and ls: "length s = NonceSize"
    and wb: "writeBuf wc \<noteq> []" "length (writeBuf wc) < 2 ^ 24"
    and W: "Write P G B wc = Some (wc', Ok n)"
    and rh: "read_half rc = write_half wc" and rb: "readBuf rc = []"
    and hb: "length (headerBuf rc) = 4 + Overhead"
    and rwh: "write_half rc = Some \<lparr>aead = Some kw, seq = sw\<rparr>" and lsw: "length sw = NonceSize"
    and carrier: "out (conn wc') = out (conn wc) @ concat (inp (conn rc))"
    and answer: "rekey_due wc \<longrightarrow> out_room (conn rc) = None \<and> 32 \<le> length (rand_Reader rc)"
    and sz: "\<forall>i. 0 < sz i"
  shows "n = length B
     \<and> (\<exists>rc'. read_until P sz (length B) rc [] = Some (rc', Ok B)
            \<and> (B \<noteq> [] \<longrightarrow> read_half rc' = write_half wc' \<and> readBuf rc' = []
                          \<and> concat (inp (conn rc')) = []))"
proof -
  let ?L = "length (writeBuf wc)"
  let ?chs = "chunks ?L B"
  have L: "0 < ?L" using wb(1) by simp
  have cc: "concat ?chs = B" using L by (rule concat_chunks)
  note small = chunks_small [OF wb(2), of B]
  have rov: "half_Overhead (write_half rc) = Some Overhead"
    using rwh by (simp add: half_Overhead_def)
  have n: "n = length B" using W by (rule Write_Ok_length)
  have "\<exists>rc'. read_until P sz (length B) rc [] = Some (rc', Ok B)
            \<and> (B \<noteq> [] \<longrightarrow> read_half rc' = write_half wc' \<and> readBuf rc' = []
                          \<and> concat (inp (conn rc')) = [])"
  proof (cases "rekey_due wc")
    case False
    from Write_Ok_no_rekey [OF False W] obtain c1 where
      l: "Write_loop P B c1 = Some (wc', Ok ())"
      and c1: "write_half c1 = write_half wc" "conn c1 = conn wc" "writeBuf c1 = writeBuf wc"
      by blast
    have wh1: "write_half c1 = Some \<lparr>aead = Some k, seq = s\<rparr>" using c1(1) wh by simp
    have wb1: "writeBuf c1 \<noteq> []" using c1(3) wb(1) by simp
    from Write_loop_Ok [OF wh1 ls wb1 l] c1
    have o: "out (conn wc') = out (conn wc) @ seal_chunks P k s ?chs" by simp
    from Write_loop_Ok [OF wh1 ls wb1 l] c1
    have h': "write_half wc' = Some \<lparr>aead = Some k, seq = adv (2 * length ?chs) s\<rparr>" by simp
    from o carrier have i: "concat (inp (conn rc)) = seal_chunks P k s ?chs @ []" by simp
    have rh': "read_half rc = Some \<lparr>aead = Some k, seq = s\<rparr>" using rh wh by simp
    have "length B = length ([] :: bytes) + length (concat ?chs)" using cc by simp
    from read_until_chunks [OF ok sz rh' ls hb rov rb i small this] cc h' rb
    show ?thesis by auto
  next
    case True
    from Write_Ok_rekey [OF True W] obtain c1 where
      st: "startRekey P G wc = (c1, Ok ())" and l: "Write_loop P B c1 = Some (wc', Ok ())"
      by blast
    from startRekey_Ok [OF wh ls st] obtain payload where
      lp: "length payload = 48"
      and o1: "out (conn c1) = out (conn wc)
                 @ aead_Seal P k s (PutUint32 (sendBuffer_header pStartRekey 48))
                 @ aead_Seal P k (inc_le s) payload"
      and wh1: "write_half c1 = Some \<lparr>aead = Some k, seq = inc_le (inc_le s)\<rparr>"
      and wb1: "writeBuf c1 = writeBuf wc"
      by blast
    have ls2: "length (inc_le (inc_le s)) = NonceSize" using ls by simp
    have wbn: "writeBuf c1 \<noteq> []" using wb1 wb(1) by simp
    from Write_loop_Ok [OF wh1 ls2 wbn l] wb1
    have o: "out (conn wc') = out (conn c1) @ seal_chunks P k (inc_le (inc_le s)) ?chs" by simp
    from Write_loop_Ok [OF wh1 ls2 wbn l] wb1
    have h': "write_half wc' =
        Some \<lparr>aead = Some k, seq = adv (2 * length ?chs) (inc_le (inc_le s))\<rparr>"
      by simp
    from o o1 carrier have i: "concat (inp (conn rc)) =
        aead_Seal P k s (PutUint32 (sendBuffer_header pStartRekey 48))
        @ aead_Seal P k (inc_le s) payload
        @ (seal_chunks P k (inc_le (inc_le s)) ?chs @ [])"
      by simp
    show ?thesis
    proof (cases "B = []")
      case True
      then show ?thesis by (simp add: read_until_done)
    next
      case False
      have rh': "read_half rc = Some \<lparr>aead = Some k, seq = s\<rparr>" using rh wh by simp
      from answer True have room: "out_room (conn rc) = None"
        and rnd: "32 \<le> length (rand_Reader rc)" by simp_all
      let ?m = "sz (length ([] :: bytes))"
      have m: "0 < ?m" using sz by simp
      from Read_pass_start_rekey [OF ok hk rh' ls hb rwh lsw room rnd i lp, of ?m]
      obtain c' where pass: "Read_pass P ?m rc = (c', Retry)"
        and c': "read_half c' = Some \<lparr>aead = Some k, seq = inc_le (inc_le s)\<rparr>"
          "concat (inp (conn c')) = seal_chunks P k (inc_le (inc_le s)) ?chs @ []"
          "readBuf c' = readBuf rc" "headerBuf c' = headerBuf rc"
          "half_Overhead (write_half c') = Some Overhead"
        by blast
      have rb': "readBuf c' = []" using c'(3) rb by simp
      have hb': "length (headerBuf c') = 4 + Overhead" using c'(4) hb by simp
      have "Read P ?m rc = Read P ?m c'"
        using Read_empty_buffer [OF rb m, of P] Read_empty_buffer [OF rb' m, of P]
          Read_loop_Retry [OF pass]
        by simp
      moreover have "length ([] :: bytes) < length B" using False by simp
      ultimately have e: "read_until P sz (length B) rc [] = read_until P sz (length B) c' []"
        by (intro read_until_same_Read)
      have "length B = length ([] :: bytes) + length (concat ?chs)" using cc by simp
      from read_until_chunks [OF ok sz c'(1) ls2 hb' c'(5) rb' c'(2) small this] cc h' rb' e
      show ?thesis by auto
    qed
  qed
  with n show ?thesis by simp
qed

lemma length_ex_tag [simp]: "length (ex_tag k n) = 16"
  by (simp add: ex_tag_def)

lemma aead_ok_ex: "aead_ok ex"
  by (simp add: aead_ok_def ex_Seal_def ex_Open_def Overhead_def)

lemma hkdf_ok_ex: "hkdf_ok ex"
  by (simp add: hkdf_ok_def ex_hkdf_def)

text \<open>
  The server of the example, told to rekey, writes the byte 7: a START_REKEY record and a
  DATA record go out. The client has them pending, in four segments, and 32 random bytes
  for its answer.
\<close>

definition cli_ready :: Conn where
  "cli_ready =
     cli0\<lparr>conn := (conn cli0)\<lparr>inp :=
               [ex_Seal (replicate 16 5) (nonce 0) [0, 0, 48, 1],
                ex_Seal (replicate 16 5) (nonce 1) (key_s1 @ iv_s1),
                ex_Seal (replicate 16 5) (nonce 2) [0, 0, 1, 0],
                ex_Seal (replicate 16 5) (nonce 3) [7]]\<rparr>,
          rand_Reader := replicate 32 9\<rparr>"

lemma stream_roundtrip_witness:
  "Write ex G0 [7] (RekeyNext srv_rnd) = Some (srv_proposed, Ok 1)
   \<and> rekey_due (RekeyNext srv_rnd)
   \<and> (\<exists>rc'. read_until ex (\<lambda>i. 16) 1 cli_ready [] = Some (rc', Ok [7])
          \<and> read_half rc' = write_half srv_proposed)"
proof -
  let ?wc = "RekeyNext srv_rnd"
  have wh: "write_half ?wc = Some \<lparr>aead = Some (replicate 16 5), seq = replicate 12 0\<rparr>"
    by (simp add: RekeyNext_def srv_rnd_def srv0_def)
  have ls: "length (replicate 12 (0 :: byte)) = NonceSize" by (simp add: NonceSize_def)
  have wb: "writeBuf ?wc \<noteq> []" "length (writeBuf ?wc) < 2 ^ 24"
    by (simp_all add: RekeyNext_def srv_rnd_def srv0_def)
  have rh: "read_half cli_ready = write_half ?wc"
    by (simp add: cli_ready_def cli0_def RekeyNext_def srv_rnd_def srv0_def)
  have rb: "readBuf cli_ready = []" by (simp add: cli_ready_def cli0_def)
  have hb: "length (headerBuf cli_ready) = 4 + Overhead"
    by (simp add: cli_ready_def cli0_def Overhead_def)
  have rwh: "write_half cli_ready = Some \<lparr>aead = Some (replicate 16 10), seq = replicate 12 0\<rparr>"
    by (simp add: cli_ready_def cli0_def)
  have carrier: "out (conn srv_proposed) = out (conn ?wc) @ concat (inp (conn cli_ready))"
    by (simp add: cli_ready_def cli0_def RekeyNext_def srv_rnd_def srv_proposed_def srv0_def)
  have due: "rekey_due ?wc"
    by (simp add: rekey_due_def RekeyNext_def srv_rnd_def srv0_def)
  have answer: "rekey_due ?wc \<longrightarrow>
      out_room (conn cli_ready) = None \<and> 32 \<le> length (rand_Reader cli_ready)"
    by (simp add: cli_ready_def cli0_def)
  have sz: "\<forall>i. 0 < (\<lambda>i. 16 :: nat) i" by simp
  from stream_roundtrip [OF aead_ok_ex hkdf_ok_ex wh ls wb Write_srv_rnd rh rb hb rwh ls
         carrier answer sz]
  show ?thesis using Write_srv_rnd due by auto
qed

section \<open>What the handshake establishes\<close>

lemma take_segs_frame:
  "ReadFull n u = (u', g, e) \<Longrightarrow> out u' = out u \<and> out_room u' = out_room u"
  by (auto simp add: ReadFull_def split: prod.splits)

lemma conn_Read_frame:
  "conn_Read n u = (u', g, e) \<Longrightarrow> out u' = out u \<and> out_room u' = out_room u"
  by (auto simp add: conn_Read_def split: if_splits list.splits)

lemma binary_Read_frame:
  "binary_Read u = (u', r) \<Longrightarrow> out u' = out u \<and> out_room u' = out_room u"
  by (auto simp add: binary_Read_def split: prod.splits option.splits dest: take_segs_frame)

lemma binary_Write_unlimited:
  "out_room u = None \<Longrightarrow> binary_Write v u = (u\<lparr>out := out u @ PutUint32 v\<rparr>, None)"
  by (simp add: binary_Write_def conn_Write_def)

text \<open>What a successful \<open>Negotiate\<close> has put on a carrier without a limit: the length word
  and the public key, and from the client the length word and the salt.\<close>

lemma Negotiate_out:
  assumes ok: "Negotiate P G srv c = (c', Ok ())" and room: "out_room (conn c) = None"
  shows "out (conn c') = out (conn c) @ PutUint32 32
           @ arr32 (ScalarBaseMult P (take 32 (rand_Reader c)))
           @ (if srv then [] else PutUint32 16 @ take 16 (drop 32 (rand_Reader c)))
     \<and> (\<not> srv \<longrightarrow> 48 \<le> length (rand_Reader c)
                   \<and> concat (inp (conn c')) = drop 36 (concat (inp (conn c))))"
proof -
  from ok obtain rnd pub priv where g: "GenerateKey P (rand_Reader c) = (rnd, Ok (pub, priv))"
    by (auto simp add: Negotiate_def split: prod.splits res.splits)
  then have g': "priv = take 32 (rand_Reader c)" "32 \<le> length (rand_Reader c)"
    "rnd = drop 32 (rand_Reader c)" "pub = arr32 (ScalarBaseMult P priv)"
    by (auto simp add: GenerateKey_def rand_ReadFull_def split: if_splits)
  let ?u1 = "(conn c)\<lparr>out := out (conn c) @ PutUint32 32\<rparr>"
  let ?u2 = "(conn c)\<lparr>out := out (conn c) @ PutUint32 32 @ pub\<rparr>"
  have w1: "binary_Write 32 (conn c) = (?u1, None)"
    using room by (simp add: binary_Write_unlimited)
  have w2: "Write_checked pub ?u1 = (?u2, None)"
    using room by (simp add: Write_checked_unlimited)
  from ok g w1 w2 obtain u3 other u4 pk c4 iv where
        r1: "binary_Read ?u2 = (u3, Ok other)"
    and r2: "conn_Read 32 u3 = (u4, pk, None)"
    and l: "length pk = 32"
    and iv: "Negotiate_iv srv
               (c\<lparr>rand_Reader := rnd, pubKey := Some pub, privKey := Some priv,
                  server := srv, conn := u4, peerKey := Some (arr32 pk),
                  shared := Some (arr32 (ScalarMult P priv (arr32 pk)))\<rparr>) = (c4, Ok iv)"
    and k: "Negotiate_keys P G iv c4 = (c', Ok ())"
    unfolding Negotiate_def Let_def
    by (auto split: prod.splits res.splits option.splits if_splits)
  have o4: "out u4 = out (conn c) @ PutUint32 32 @ pub" "out_room u4 = None"
    using binary_Read_frame [OF r1] conn_Read_frame [OF r2] room by simp_all
  from binary_Read_Ok [OF r1] obtain a where
    a: "concat (inp (conn c)) = a @ concat (inp u3)" "length a = 4"
    by auto
  from conn_Read_concat [OF r2] a l have i4: "concat (inp u4) = drop 36 (concat (inp (conn c)))"
    by simp
  let ?c3 = "c\<lparr>rand_Reader := rnd, pubKey := Some pub, privKey := Some priv,
                  server := srv, conn := u4, peerKey := Some (arr32 pk),
                  shared := Some (arr32 (ScalarMult P priv (arr32 pk)))\<rparr>"
  have cn: "conn c' = conn c4" using Negotiate_keys_Ok [OF k] by auto
  show ?thesis
  proof (cases srv)
    case True
    with iv obtain u5 r5 where "binary_Read u4 = (u5, r5)" "out (conn c4) = out u5"
      by (auto simp add: Negotiate_iv_def split: prod.splits res.splits option.splits if_splits
            dest: take_segs_frame)
    with binary_Read_frame [of u4 u5 r5] o4 cn g' True show ?thesis by simp
  next
    case False
    have rr: "rand_Reader ?c3 = drop 32 (rand_Reader c)" by (simp add: g')
    from iv False have ivc: "Negotiate_iv False ?c3 = (c4, Ok iv)" by simp
    then have "rand_ReadFull BlockSize (rand_Reader ?c3) = (drop 16 (rand_Reader ?c3), iv, None)"
      and li: "length iv = 16"
      by (auto simp add: Negotiate_iv_def rand_ReadFull_def BlockSize_def
            split: prod.splits option.splits if_splits)
    then have len: "48 \<le> length (rand_Reader c)" and iv': "iv = take 16 (drop 32 (rand_Reader c))"
      unfolding rr by (auto simp add: rand_ReadFull_def BlockSize_def split: if_splits)
    have "conn c4 = u4\<lparr>out := out u4 @ PutUint32 16 @ iv\<rparr>"
      using ivc li o4(2)
      by (auto simp add: Negotiate_iv_def binary_Write_unlimited Write_checked_unlimited
            BlockSize_def split: prod.splits option.splits if_splits)
    with o4 i4 cn g' False len iv' show ?thesis by simp
  qed
qed

lemma append_whole:
  assumes "x @ r = y" and "length x = length y"
  shows "x = y \<and> r = []"
proof -
  from assms(1) have "length (x @ r) = length y" by simp
  with assms(2) have "r = []" by simp
  with assms(1) show ?thesis by simp
qed

text \<open>The state after a successful \<open>Negotiate\<close>: the keys it holds, the bytes it took from
  the carrier, and the halves it installed.\<close>

lemma Negotiate_summary:
  assumes "Negotiate P G srv c = (c', Ok ())"
  shows "\<exists>pk iv a rest.
      pubKey c' = Some (arr32 (ScalarBaseMult P (take 32 (rand_Reader c))))
    \<and> peerKey c' = Some pk \<and> length pk = 32 \<and> length a = 4
    \<and> shared c' = Some (arr32 (ScalarMult P (take 32 (rand_Reader c)) pk))
    \<and> concat (inp (conn c)) = a @ pk @ rest
    \<and> (if srv
        then \<exists>b. rest = b @ iv @ concat (inp (conn c')) \<and> length b = 4
                 \<and> Uint32 b = Some (word_of_nat (length iv))
        else rest = concat (inp (conn c')) \<and> iv = take 16 (drop 32 (rand_Reader c)))
    \<and> read_half c' =
          Some \<lparr>aead = Some (if srv then K1 P (arr32 (ScalarMult P (take 32 (rand_Reader c)) pk)) iv
                              else K0 P (arr32 (ScalarMult P (take 32 (rand_Reader c)) pk)) iv),
                seq = replicate 12 0\<rparr>
    \<and> write_half c' =
          Some \<lparr>aead = Some (if srv then K0 P (arr32 (ScalarMult P (take 32 (rand_Reader c)) pk)) iv
                              else K1 P (arr32 (ScalarMult P (take 32 (rand_Reader c)) pk)) iv),
                seq = replicate 12 0\<rparr>
    \<and> readBuf c' = readBuf c \<and> length (headerBuf c') = 20 \<and> writeBuf c' = writeBuf c
    \<and> 32 \<le> length (rand_Reader c)"
proof -
  let ?priv = "take 32 (rand_Reader c)"
  from Negotiate_Ok [OF assms] obtain pk c3 c4 iv a where
        lr: "32 \<le> length (rand_Reader c)" and
        cc: "concat (inp (conn c)) = a @ pk @ concat (inp (conn c3))"
    and la: "length a = 4" and lpk: "length pk = 32"
    and c3: "c3 = c\<lparr>rand_Reader := drop 32 (rand_Reader c),
               pubKey := Some (arr32 (ScalarBaseMult P ?priv)), privKey := Some ?priv,
               server := srv, conn := conn c3, peerKey := Some pk,
               shared := Some (arr32 (ScalarMult P ?priv pk))\<rparr>"
    and iv: "Negotiate_iv srv c3 = (c4, Ok iv)"
    and k: "Negotiate_keys P G iv c4 = (c', Ok ())"
    by blast
  from Negotiate_iv_frame [OF iv] obtain u rnd where c4: "c4 = c3\<lparr>conn := u, rand_Reader := rnd\<rparr>"
    by blast
  have f3: "server c3 = srv" "rand_Reader c3 = drop 32 (rand_Reader c)"
    "pubKey c3 = Some (arr32 (ScalarBaseMult P ?priv))" "peerKey c3 = Some pk"
    "shared c3 = Some (arr32 (ScalarMult P ?priv pk))" "readBuf c3 = readBuf c"
    "writeBuf c3 = writeBuf c"
    by (subst c3, simp)+
  have f4: "server c4 = srv" "pubKey c4 = Some (arr32 (ScalarBaseMult P ?priv))"
    "peerKey c4 = Some pk" "shared c4 = Some (arr32 (ScalarMult P ?priv pk))"
    "readBuf c4 = readBuf c" "writeBuf c4 = writeBuf c"
    using f3 by (simp_all add: c4)
  from Negotiate_keys_Ok [OF k] f4 have
        sh: "shared c' = Some (arr32 (ScalarMult P ?priv pk))"
    and rh: "read_half c' =
          Some \<lparr>aead = Some (if srv then K1 P (arr32 (ScalarMult P ?priv pk)) iv
                              else K0 P (arr32 (ScalarMult P ?priv pk)) iv),
                seq = replicate 12 0\<rparr>"
    and wh: "write_half c' =
          Some \<lparr>aead = Some (if srv then K0 P (arr32 (ScalarMult P ?priv pk)) iv
                              else K1 P (arr32 (ScalarMult P ?priv pk)) iv),
                seq = replicate 12 0\<rparr>"
    and rest: "pubKey c' = Some (arr32 (ScalarBaseMult P ?priv))" "peerKey c' = Some pk"
      "readBuf c' = readBuf c" "length (headerBuf c') = 20" "writeBuf c' = writeBuf c"
    and cn: "conn c' = conn c4"
    by (auto simp add: K0_def K1_def)
  have origin: "if srv
        then \<exists>b. concat (inp (conn c3)) = b @ iv @ concat (inp (conn c')) \<and> length b = 4
                 \<and> Uint32 b = Some (word_of_nat (length iv))
        else concat (inp (conn c3)) = concat (inp (conn c'))
             \<and> iv = take 16 (drop 32 (rand_Reader c))"
  proof (cases srv)
    case True
    with iv have "Negotiate_iv True c3 = (c4, Ok iv)" by simp
    from Negotiate_iv_server [OF this] cn True show ?thesis by simp
  next
    case False
    with iv have i: "Negotiate_iv False c3 = (c4, Ok iv)" by simp
    then have "inp (conn c4) = inp (conn c3)"
      by (auto simp add: Negotiate_iv_def split: prod.splits option.splits if_splits
            dest!: binary_Write_inp Write_checked_inp)
    with Negotiate_iv_client [OF i] f3(2) cn False show ?thesis by simp
  qed
  show ?thesis
    using sh rh wh rest lpk la cc origin lr
    by (intro exI [of _ pk] exI [of _ iv] exI [of _ a] exI [of _ "concat (inp (conn c3))"]) simp
qed

text \<open>
  Client and server complete \<open>Negotiate\<close> over carriers without a limit, each receiving
  what the other has sent, and the group operation commutes as Diffie-Hellman needs.
  Then they hold the same secret and each other's public key, each one's write half is
  the other's read half, and nothing is left pending.
\<close>

lemma handshake_agreement:
  assumes dh: "\<forall>a b. length a = 32 \<and> length b = 32 \<longrightarrow>
                   arr32 (ScalarMult P a (arr32 (ScalarBaseMult P b)))
                   = arr32 (ScalarMult P b (arr32 (ScalarBaseMult P a)))"
    and nc: "Negotiate P G False c0 = (cl, Ok ())"
    and ns: "Negotiate P G' True s0 = (sv, Ok ())"
    and rc: "out_room (conn c0) = None" and rs: "out_room (conn s0) = None"
    and c2s: "out (conn cl) = out (conn c0) @ concat (inp (conn s0))"
    and s2c: "out (conn sv) = out (conn s0) @ concat (inp (conn c0))"
  shows "shared cl = shared sv \<and> shared cl \<noteq> None
     \<and> peerKey cl = pubKey sv \<and> peerKey sv = pubKey cl \<and> pubKey cl \<noteq> None \<and> pubKey sv \<noteq> None
     \<and> write_half cl = read_half sv \<and> write_half sv = read_half cl
     \<and> concat (inp (conn cl)) = [] \<and> concat (inp (conn sv)) = []"
proof -
  let ?pc = "take 32 (rand_Reader c0)"
  let ?ps = "take 32 (rand_Reader s0)"
  let ?pubc = "arr32 (ScalarBaseMult P ?pc)"
  let ?pubs = "arr32 (ScalarBaseMult P ?ps)"
  let ?ivc = "take 16 (drop 32 (rand_Reader c0))"
  from Negotiate_out [OF nc rc] c2s have
        is0: "concat (inp (conn s0)) = PutUint32 32 @ ?pubc @ PutUint32 16 @ ?ivc"
    and lrc: "48 \<le> length (rand_Reader c0)"
    by simp_all
  from Negotiate_out [OF ns rs] s2c have ic0: "concat (inp (conn c0)) = PutUint32 32 @ ?pubs"
    by simp
  have livc: "length ?ivc = 16" using lrc by simp
  from Negotiate_summary [OF nc] obtain pkc ivc' a where
        c: "pubKey cl = Some ?pubc" "peerKey cl = Some pkc" "length pkc = 32" "length a = 4"
           "shared cl = Some (arr32 (ScalarMult P ?pc pkc))"
           "concat (inp (conn c0)) = a @ pkc @ concat (inp (conn cl))"
           "ivc' = ?ivc"
           "read_half cl = Some \<lparr>aead = Some (K0 P (arr32 (ScalarMult P ?pc pkc)) ivc'),
                                 seq = replicate 12 0\<rparr>"
           "write_half cl = Some \<lparr>aead = Some (K1 P (arr32 (ScalarMult P ?pc pkc)) ivc'),
                                  seq = replicate 12 0\<rparr>"
           "32 \<le> length (rand_Reader c0)"
    by auto
  from c(6) ic0 c(4) have "pkc @ concat (inp (conn cl)) = ?pubs"
    by (simp add: append_eq_append_conv)
  from append_whole [OF this] c(3) have pkc: "pkc = ?pubs" and ecl: "concat (inp (conn cl)) = []"
    by simp_all
  from Negotiate_summary [OF ns] obtain pks ivs a' b where
        s: "pubKey sv = Some ?pubs" "peerKey sv = Some pks" "length pks = 32" "length a' = 4"
           "shared sv = Some (arr32 (ScalarMult P ?ps pks))"
           "concat (inp (conn s0)) = a' @ pks @ b @ ivs @ concat (inp (conn sv))"
           "length b = 4" "Uint32 b = Some (word_of_nat (length ivs))"
           "read_half sv = Some \<lparr>aead = Some (K1 P (arr32 (ScalarMult P ?ps pks)) ivs),
                                 seq = replicate 12 0\<rparr>"
           "write_half sv = Some \<lparr>aead = Some (K0 P (arr32 (ScalarMult P ?ps pks)) ivs),
                                  seq = replicate 12 0\<rparr>"
           "32 \<le> length (rand_Reader s0)"
    by auto
  from s(6) is0 s(4) have "pks @ b @ ivs @ concat (inp (conn sv)) = ?pubc @ PutUint32 16 @ ?ivc"
    by (simp add: append_eq_append_conv)
  with s(3) have pks: "pks = ?pubc" and "b @ ivs @ concat (inp (conn sv)) = PutUint32 16 @ ?ivc"
    by (simp_all add: append_eq_append_conv)
  with s(7) have b: "b = PutUint32 16" and tl: "ivs @ concat (inp (conn sv)) = ?ivc"
    by (simp_all add: append_eq_append_conv)
  from s(8) b have w: "(word_of_nat (length ivs) :: uint32) = 16" by simp
  from tl livc have le: "length ivs \<le> 16"
    by (metis length_append le_add1)
  have "unat (word_of_nat (length ivs) :: uint32) = length ivs"
    using le unat_of_nat [of "length ivs", where ?'a = 32] by simp
  with w have "length ivs = 16" by simp
  with append_whole [OF tl] livc have ivs: "ivs = ?ivc" and esv: "concat (inp (conn sv)) = []"
    by simp_all
  have "length ?pc = 32" "length ?ps = 32" using c(10) s(11) by simp_all
  with dh have sh: "arr32 (ScalarMult P ?pc ?pubs) = arr32 (ScalarMult P ?ps ?pubc)"
    by blast
  show ?thesis
    using c s sh ecl esv by (simp add: pkc pks ivs)
qed

text \<open>The example is such a handshake.\<close>

lemma ex_mult_commute: "ex_mult x y = ex_mult y x"
  unfolding ex_mult_def
proof (induction x arbitrary: y)
  case Nil
  then show ?case by simp
next
  case (Cons x xs)
  then show ?case by (cases y) (simp_all add: xor.commute)
qed

lemma handshake_agreement_ex:
  "shared cli0 = shared srv0 \<and> peerKey cli0 = pubKey srv0 \<and> peerKey srv0 = pubKey cli0
   \<and> write_half cli0 = read_half srv0 \<and> write_half srv0 = read_half cli0"
proof -
  have dh: "\<forall>a b. length a = 32 \<and> length b = 32 \<longrightarrow>
                   arr32 (ScalarMult ex a (arr32 (ScalarBaseMult ex b)))
                   = arr32 (ScalarMult ex b (arr32 (ScalarBaseMult ex a)))"
    by (simp add: arr32_def ex_base_def ex_mult_commute)
  have c2s: "out (conn cli0) =
      out (conn (NewConn G0 (wire [PutUint32 32, take 32 rnd_s]) rnd_c 0))
      @ concat (inp (conn (NewConn G0
           (wire [PutUint32 32, take 32 rnd_c, PutUint32 16, drop 32 rnd_c]) rnd_s 0)))"
    by (simp add: cli0_def NewConn_def wire_def rnd_c_def)
  have s2c: "out (conn srv0) =
      out (conn (NewConn G0
           (wire [PutUint32 32, take 32 rnd_c, PutUint32 16, drop 32 rnd_c]) rnd_s 0))
      @ concat (inp (conn (NewConn G0 (wire [PutUint32 32, take 32 rnd_s]) rnd_c 0)))"
    by (simp add: srv0_def NewConn_def wire_def rnd_s_def)
  from handshake_agreement [OF dh Negotiate_client_ex Negotiate_server_ex _ _ c2s s2c]
  show ?thesis by (simp add: NewConn_def wire_def)
qed

end
